theory Spec2Isabelle
  imports Complex_Main
begin

section \<open>Numbers, errors and arrays\<close>

text \<open>
  The simulation core is JavaScript. Outside the histogram its numbers are modelled as
  exact reals: the theorems about the valuators, the engine, the statistics and the bands
  are about exact arithmetic on finite numbers, not about the rounding of IEEE doubles.
  The histogram, whose bin edges and bin indices depend on that rounding, is modelled in
  double arithmetic. Horizons, trial counts and array lengths are integers. Where the
  code can produce the value NaN from a division \<open>0 / 0\<close> or read \<open>undefined\<close> from
  an array, the model says so with \<open>NaN\<close> and \<open>None\<close>.
\<close>

datatype error =
    RangeError        \<comment> \<open>\<open>new Array(n)\<close> with an invalid length\<close>
  | TypeError         \<comment> \<open>a property read on \<open>undefined\<close>\<close>
  | LengthMismatch    \<comment> \<open>\<open>Error('Data arrays must have equal length')\<close>\<close>

datatype jsnum = Num real | NaN

text \<open>
  \<open>new Array(n)\<close> for an integer \<open>n\<close>: an array of \<open>n\<close> empty slots, or a RangeError
  when \<open>n\<close> is negative or larger than \<open>2^32 - 1\<close>. The model returns the length.
\<close>

definition new_Array :: "int \<Rightarrow> error + nat" where
  "new_Array n = (if n < 0 \<or> 4294967295 < n then Inl RangeError else Inr (nat n))"

text \<open>
  An array read \<open>xs[i]\<close>: the element, or \<open>undefined\<close> (\<open>None\<close>) out of range.
\<close>

definition js_get :: "'a list \<Rightarrow> nat \<Rightarrow> 'a option" where
  "js_get xs i = (if i < length xs then Some (xs ! i) else None)"

text \<open>
  \<open>Math.floor(n * p)\<close> for an array length \<open>n\<close> and a fraction \<open>p\<close>, the
  nearest-rank index of the percentile functions.
\<close>

definition floorIndex :: "nat \<Rightarrow> real \<Rightarrow> nat" where
  "floorIndex n p = nat \<lfloor>real n * p\<rfloor>"

section \<open>Tax calculator (taxCalculator.js)\<close>

definition CAPITAL_GAINS_RATE :: real where
  "CAPITAL_GAINS_RATE = 0.3784"

definition STEP_UP_FACTOR :: real where
  "STEP_UP_FACTOR = 1.72"

definition FLAT_RATE :: real where
  "FLAT_RATE = 0.22"

definition calculateCapitalGainsTax :: "real \<Rightarrow> real \<Rightarrow> real" where
  "calculateCapitalGainsTax totalValue costBasis =
     (let capitalGains = max 0 (totalValue - costBasis);
          tax = capitalGains * CAPITAL_GAINS_RATE
      in tax)"

definition calculateCapitalGainsTaxStepUp :: "real \<Rightarrow> real \<Rightarrow> real" where
  "calculateCapitalGainsTaxStepUp totalValue costBasis =
     (let capitalGains = max 0 (totalValue - costBasis);
          steppedUpGains = capitalGains * STEP_UP_FACTOR;
          tax = steppedUpGains * FLAT_RATE
      in tax)"

section \<open>Scenario valuators (monteCarloEngine.js)\<close>

definition NORWEGIAN_TAX_RATE :: real where
  "NORWEGIAN_TAX_RATE = 0.3784"

text \<open>
  \<open>Math.pow(1 + monthlyRate, totalMonths)\<close> has an integer exponent, which may be
  negative when \<open>years\<close> is: the integer power \<open>powi\<close>. (For the base \<open>0\<close> and a
  negative exponent the code computes Infinity, which the reals do not have.)
\<close>

definition calculateMortgageSavingsValue :: "real \<Rightarrow> int \<Rightarrow> real \<Rightarrow> real" where
  "calculateMortgageSavingsValue monthlyPayment years annualRate =
     (let monthlyRate = annualRate / 12;
          totalMonths = years * 12
      in if monthlyRate = 0 then monthlyPayment * of_int totalMonths
         else monthlyPayment * (((1 + monthlyRate) powi totalMonths - 1) / monthlyRate))"

definition calculateMortgageScenario :: "real \<Rightarrow> int \<Rightarrow> real \<Rightarrow> real" where
  "calculateMortgageScenario monthlyAmount years mortgageRate =
     calculateMortgageSavingsValue monthlyAmount years mortgageRate"

text \<open>
  The yearly loop of \<open>calculateStockScenario\<close>, one step per element of the return
  path: the state is \<open>(stockValue, totalInvested)\<close>.
\<close>

fun stockLoop :: "real \<Rightarrow> real list \<Rightarrow> real \<times> real \<Rightarrow> real \<times> real" where
  "stockLoop monthlyToStock [] (stockValue, totalInvested) = (stockValue, totalInvested)"
| "stockLoop monthlyToStock (annualReturn # rest) (stockValue, totalInvested) =
     (let annualContribution = monthlyToStock * 12
      in stockLoop monthlyToStock rest
           ((stockValue + annualContribution) * (1 + annualReturn),
            totalInvested + annualContribution))"

definition calculateStockScenario ::
  "real \<Rightarrow> real \<Rightarrow> real list \<Rightarrow> real \<Rightarrow> int \<Rightarrow> real" where
  "calculateStockScenario monthlyAmount allocation rets mortgageRate years =
     (let monthlyToStock = monthlyAmount * allocation;
          monthlyToMortgage = monthlyAmount * (1 - allocation);
          (stockValue, totalInvested) = stockLoop monthlyToStock rets (0, 0);
          capitalGains = max 0 (stockValue - totalInvested);
          tax = capitalGains * NORWEGIAN_TAX_RATE;
          afterTaxStockValue = stockValue - tax;
          mortgageSavings = calculateMortgageSavingsValue monthlyToMortgage years mortgageRate
      in afterTaxStockValue + mortgageSavings)"

section \<open>Statistics (class HistogramBinner of taxCalculator.js)\<close>

text \<open>
  A JavaScript object is an association list from property names to values, in the order
  of the object literal; a value is \<open>None\<close> when it is \<open>undefined\<close>.
  \<open>[...data].sort((a, b) => a - b)\<close> on an array of numbers is \<open>sort\<close>.
\<close>

type_synonym jsobject = "(string \<times> real option) list"

text \<open>A property read \<open>obj.key\<close>: \<open>undefined\<close> when the object has no such property.\<close>

definition js_prop :: "jsobject \<Rightarrow> string \<Rightarrow> real option" where
  "js_prop obj key = (case map_of obj key of None \<Rightarrow> None | Some v \<Rightarrow> v)"

definition calculatePercentiles :: "real list \<Rightarrow> jsobject" where
  "calculatePercentiles data =
     (let sorted = sort data;
          n = length sorted
      in [(''p5'', js_get sorted (floorIndex n 0.05)),
          (''p25'', js_get sorted (floorIndex n 0.25)),
          (''p50'', js_get sorted (floorIndex n 0.50)),
          (''p75'', js_get sorted (floorIndex n 0.75)),
          (''p95'', js_get sorted (floorIndex n 0.95))])"

text \<open>
  \<open>calculateStatistics\<close> returns \<open>null\<close> (\<open>None\<close>) for an empty array. The guard
  \<open>!data\<close> for a missing argument is outside the model: the argument is an array.
\<close>

definition calculateStatistics :: "real list \<Rightarrow> jsobject option" where
  "calculateStatistics data =
     (if length data = 0 then None
      else
        let sorted = sort data;
            n = length sorted;
            mean = foldl (\<lambda>sum val. sum + val) 0 data / real n;
            squareDiffs = map (\<lambda>val. (val - mean) ^ 2) data;
            variance = foldl (\<lambda>sum val. sum + val) 0 squareDiffs / real n;
            stdDev = sqrt variance;
            percentiles = calculatePercentiles data
        in Some ([(''mean'', Some mean),
                  (''median'', js_prop percentiles ''p50''),
                  (''stdDev'', Some stdDev),
                  (''min'', js_get sorted 0),
                  (''max'', js_get sorted (n - 1))] @ percentiles))"

text \<open>
  \<open>calculateOutperformanceProbability\<close>: the loop over the indices of \<open>data1\<close> counts
  the wins; \<open>wins / data1.length\<close> is \<open>0 / 0\<close>, that is NaN, for two empty arrays.
\<close>

definition calculateOutperformanceProbability :: "real list \<Rightarrow> real list \<Rightarrow> error + jsnum" where
  "calculateOutperformanceProbability data1 data2 =
     (if length data1 \<noteq> length data2 then Inl LengthMismatch
      else
        let wins = fold (\<lambda>i wins. if data1 ! i > data2 ! i then wins + 1 else wins)
                     [0..<length data1] (0::nat)
        in Inr (if length data1 = 0 then NaN else Num (real wins / real (length data1))))"

section \<open>Statistics utilities (class Statistics)\<close>






section \<open>IEEE double arithmetic\<close>

text \<open>
  The histogram's bin edges and bin indices depend on the rounding of JavaScript's
  numbers, so the histogram is modelled in IEEE 754 double arithmetic: a double is a real
  that rounding leaves unchanged, or an infinity, or NaN. Each operation rounds the exact
  result to the nearest double, ties to even, with gradual underflow and overflow to
  infinity. Zero carries no sign: the sign of a zero does not influence the histogram.
\<close>

datatype double = Finite real | PlusInfinity | MinusInfinity | NotANumber

text \<open>The integer nearest to \<open>t\<close>, the even one of the two at a tie.\<close>

definition roundHalfEven :: "real \<Rightarrow> int" where
  "roundHalfEven t =
     (let f = \<lfloor>t\<rfloor>; d = t - of_int f
      in if d < 1 / 2 then f else if 1 / 2 < d then f + 1 else if even f then f else f + 1)"

text \<open>The binary logarithm of a positive integer, rounded down.\<close>

function ilog2 :: "int \<Rightarrow> int" where
  "ilog2 n = (if n < 2 then 0 else 1 + ilog2 (n div 2))"
  by auto
termination
  by (relation "measure nat") auto

declare ilog2.simps [simp del]

text \<open>The binary exponent \<open>e\<close> of a positive real \<open>x\<close>: \<open>2^e \<le> x < 2^(e+1)\<close>.\<close>

definition binaryExponent :: "real \<Rightarrow> int" where
  "binaryExponent x =
     (if 1 \<le> x then ilog2 \<lfloor>x\<rfloor>
      else let k = ilog2 \<lfloor>1 / x\<rfloor>
           in if x = 2 powi (- k) then - k else - k - 1)"

text \<open>
  Rounding to 53 significant bits, on the grid of spacing \<open>2^(e - 52)\<close> of the binade of
  \<open>x\<close>, and of spacing \<open>2^(-1074)\<close> below the smallest normal number.
\<close>

definition roundToGrid :: "real \<Rightarrow> real" where
  "roundToGrid x =
     (if x = 0 then 0
      else let u = 2 powi (max (binaryExponent \<bar>x\<bar> - 52) (- 1074))
           in of_int (roundHalfEven (x / u)) * u)"

definition toDouble :: "real \<Rightarrow> double" where
  "toDouble x =
     (let r = roundToGrid x
      in if 2 ^ 1024 \<le> r then PlusInfinity
         else if r \<le> - (2 ^ 1024) then MinusInfinity
         else Finite r)"

fun d_neg :: "double \<Rightarrow> double" where
  "d_neg (Finite a) = Finite (- a)"
| "d_neg PlusInfinity = MinusInfinity"
| "d_neg MinusInfinity = PlusInfinity"
| "d_neg NotANumber = NotANumber"

fun d_add :: "double \<Rightarrow> double \<Rightarrow> double" where
  "d_add (Finite a) (Finite b) = toDouble (a + b)"
| "d_add NotANumber _ = NotANumber"
| "d_add _ NotANumber = NotANumber"
| "d_add PlusInfinity MinusInfinity = NotANumber"
| "d_add MinusInfinity PlusInfinity = NotANumber"
| "d_add PlusInfinity _ = PlusInfinity"
| "d_add _ PlusInfinity = PlusInfinity"
| "d_add MinusInfinity _ = MinusInfinity"
| "d_add _ MinusInfinity = MinusInfinity"

definition d_sub :: "double \<Rightarrow> double \<Rightarrow> double" where
  "d_sub a b = d_add a (d_neg b)"

text \<open>The sign of a product or quotient with an infinity.\<close>

definition signedInfinity :: "bool \<Rightarrow> double" where
  "signedInfinity positive = (if positive then PlusInfinity else MinusInfinity)"

fun d_mul :: "double \<Rightarrow> double \<Rightarrow> double" where
  "d_mul (Finite a) (Finite b) = toDouble (a * b)"
| "d_mul NotANumber _ = NotANumber"
| "d_mul _ NotANumber = NotANumber"
| "d_mul (Finite a) PlusInfinity = (if a = 0 then NotANumber else signedInfinity (0 < a))"
| "d_mul (Finite a) MinusInfinity = (if a = 0 then NotANumber else signedInfinity (a < 0))"
| "d_mul PlusInfinity (Finite b) = (if b = 0 then NotANumber else signedInfinity (0 < b))"
| "d_mul MinusInfinity (Finite b) = (if b = 0 then NotANumber else signedInfinity (b < 0))"
| "d_mul PlusInfinity PlusInfinity = PlusInfinity"
| "d_mul MinusInfinity MinusInfinity = PlusInfinity"
| "d_mul PlusInfinity MinusInfinity = MinusInfinity"
| "d_mul MinusInfinity PlusInfinity = MinusInfinity"

text \<open>Division; a zero divisor is the positive zero.\<close>

fun d_div :: "double \<Rightarrow> double \<Rightarrow> double" where
  "d_div (Finite a) (Finite b) =
     (if b = 0 then (if a = 0 then NotANumber else signedInfinity (0 < a))
      else toDouble (a / b))"
| "d_div NotANumber _ = NotANumber"
| "d_div _ NotANumber = NotANumber"
| "d_div (Finite a) _ = Finite 0"
| "d_div PlusInfinity (Finite b) = signedInfinity (0 \<le> b)"
| "d_div MinusInfinity (Finite b) = signedInfinity (b < 0)"
| "d_div _ _ = NotANumber"

text \<open>\<open>Math.floor\<close> and \<open>Math.ceil\<close>.\<close>

fun d_floor :: "double \<Rightarrow> double" where
  "d_floor (Finite a) = Finite (of_int \<lfloor>a\<rfloor>)"
| "d_floor a = a"

fun d_ceil :: "double \<Rightarrow> double" where
  "d_ceil (Finite a) = Finite (of_int \<lceil>a\<rceil>)"
| "d_ceil a = a"

text \<open>The comparison \<open>a <= b\<close>, false when an operand is NaN.\<close>

fun d_le :: "double \<Rightarrow> double \<Rightarrow> bool" where
  "d_le (Finite a) (Finite b) = (a \<le> b)"
| "d_le NotANumber _ = False"
| "d_le _ NotANumber = False"
| "d_le MinusInfinity _ = True"
| "d_le _ PlusInfinity = True"
| "d_le _ _ = False"

text \<open>The comparison \<open>a < b\<close>, false when an operand is NaN.\<close>

fun d_less :: "double \<Rightarrow> double \<Rightarrow> bool" where
  "d_less (Finite a) (Finite b) = (a < b)"
| "d_less NotANumber _ = False"
| "d_less _ NotANumber = False"
| "d_less PlusInfinity _ = False"
| "d_less _ MinusInfinity = False"
| "d_less _ _ = True"

text \<open>\<open>Math.min\<close> and \<open>Math.max\<close> of two numbers: NaN when an operand is NaN.\<close>

fun d_min :: "double \<Rightarrow> double \<Rightarrow> double" where
  "d_min NotANumber _ = NotANumber"
| "d_min _ NotANumber = NotANumber"
| "d_min a b = (if d_le a b then a else b)"

fun d_max :: "double \<Rightarrow> double \<Rightarrow> double" where
  "d_max NotANumber _ = NotANumber"
| "d_max _ NotANumber = NotANumber"
| "d_max a b = (if d_le a b then b else a)"

text \<open>
  \<open>new Array(len)\<close> for a number \<open>len\<close>: a RangeError unless \<open>len\<close> is an integer
  from 0 to \<open>2^32 - 1\<close>.
\<close>

fun new_Array_double :: "double \<Rightarrow> error + nat" where
  "new_Array_double (Finite a) =
     (if a = of_int \<lfloor>a\<rfloor> \<and> 0 \<le> a \<and> a \<le> 4294967295 then Inr (nat \<lfloor>a\<rfloor>)
      else Inl RangeError)"
| "new_Array_double _ = Inl RangeError"

text \<open>
  The array index that a number used as a property key denotes, if any: \<open>bins[x]\<close> is
  \<open>undefined\<close> when \<open>x\<close> is negative, fractional, infinite or NaN.
\<close>

fun arrayIndex :: "double \<Rightarrow> nat option" where
  "arrayIndex (Finite a) = (if a = of_int \<lfloor>a\<rfloor> \<and> 0 \<le> a then Some (nat \<lfloor>a\<rfloor>) else None)"
| "arrayIndex _ = None"

section \<open>Histogram binning (class HistogramBinner of taxCalculator.js)\<close>

text \<open>
  The data are finite numbers, so the sort with the comparator \<open>a - b\<close> is \<open>sort\<close>.
  \<open>calculateOptimalBins\<close> is called on the sorted, non-empty data: its array reads are
  then in range, and the products \<open>n * 0.25\<close> and \<open>n * 0.75\<close> are exact. The value of
  \<open>Math.pow(n, 1 / 3)\<close>, which the language leaves to the implementation to approximate,
  is the parameter \<open>powThird\<close>.
\<close>

definition calculateOptimalBins :: "double \<Rightarrow> real list \<Rightarrow> double" where
  "calculateOptimalBins powThird sortedData =
     (let n = length sortedData;
          q1 = sortedData ! floorIndex n 0.25;
          q3 = sortedData ! floorIndex n 0.75;
          iqr = d_sub (Finite q3) (Finite q1);
          binWidth = d_div (d_mul (Finite 2) iqr) powThird;
          range = d_sub (Finite (sortedData ! (n - 1))) (Finite (sortedData ! 0));
          numBins = (if d_less (Finite 0) binWidth then d_ceil (d_div range binWidth)
                     else Finite 30)
      in d_max (Finite 20) (d_min (Finite 60) numBins))"

text \<open>
  A bin as the initialisation loop creates it, and as \<open>binData\<close> returns it, once the
  percentage has been added.
\<close>

record bin =
  binStart :: double
  binEnd :: double
  count :: nat
  midpoint :: double

record histogramBin = bin +
  percentage :: double

text \<open>
  The counting loop over the sorted data. \<open>bins[binIndex].count++\<close> raises a TypeError
  when \<open>binIndex\<close> is not an index of \<open>bins\<close>, \<open>bins[binIndex]\<close> being undefined.
\<close>

fun countLoop :: "real \<Rightarrow> double \<Rightarrow> double \<Rightarrow> real list \<Rightarrow> bin list \<Rightarrow> error + bin list" where
  "countLoop mn binWidth numBins [] bins = Inr bins"
| "countLoop mn binWidth numBins (val # rest) bins =
     (let binIndex = d_min (d_floor (d_div (d_sub (Finite val) (Finite mn)) binWidth))
                       (d_sub numBins (Finite 1))
      in case arrayIndex binIndex of
           None \<Rightarrow> Inl TypeError
         | Some k \<Rightarrow>
             if k < length bins
             then countLoop mn binWidth numBins rest
                    (bins[k := (bins ! k)\<lparr>count := count (bins ! k) + 1\<rparr>])
             else Inl TypeError)"

text \<open>
  \<open>binData\<close>, with the optional argument \<open>numBins\<close> (\<open>None\<close> when omitted, an integer
  when given); \<open>powThird\<close> is read only when it is omitted. The guard \<open>!data\<close> for a
  missing argument is outside the model.
\<close>

definition binData :: "double \<Rightarrow> real list \<Rightarrow> int option \<Rightarrow> error + histogramBin list" where
  "binData powThird data numBinsArg =
     (if length data = 0 then Inr []
      else
        let sortedData = sort data;
            numBins = (case numBinsArg of
                         None \<Rightarrow> calculateOptimalBins powThird sortedData
                       | Some k \<Rightarrow> Finite (of_int k));
            mn = sortedData ! 0;
            mx = sortedData ! (length sortedData - 1)
        in if mn = mx
           then Inr [\<lparr>binStart = Finite mn, binEnd = Finite mx, count = length data,
                      midpoint = Finite mn, percentage = Finite 100\<rparr>]
           else
             let binWidth = d_div (d_sub (Finite mx) (Finite mn)) numBins
             in case new_Array_double numBins of
                  Inl err \<Rightarrow> Inl err
                | Inr len \<Rightarrow>
                    let bins =
                          map (\<lambda>i. \<lparr>binStart =
                                      d_add (Finite mn) (d_mul (Finite (real i)) binWidth),
                                    binEnd =
                                      d_add (Finite mn)
                                        (d_mul (d_add (Finite (real i)) (Finite 1)) binWidth),
                                    count = 0,
                                    midpoint =
                                      d_add (Finite mn)
                                        (d_mul (d_add (Finite (real i)) (Finite 0.5)) binWidth)\<rparr>)
                            [0..<len]
                    in case countLoop mn binWidth numBins sortedData bins of
                         Inl err \<Rightarrow> Inl err
                       | Inr counted \<Rightarrow>
                           let totalCount = length data
                           in Inr (map (\<lambda>b. \<lparr>binStart = binStart b, binEnd = binEnd b,
                                                count = count b, midpoint = midpoint b,
                                                percentage =
                                                  d_mul (d_div (Finite (real (count b)))
                                                           (Finite (real totalCount)))
                                                    (Finite 100)\<rparr>)
                                     counted))"

section \<open>Time-series bands (computeTimeSeriesBands)\<close>

record band =
  year :: nat
  p5 :: "real option"
  p25 :: "real option"
  p50 :: "real option"
  p75 :: "real option"
  p95 :: "real option"
  mean :: jsnum

text \<open>
  \<open>values.sort((a, b) => a - b)\<close> on a column that may hold \<open>undefined\<close> (a row
  shorter than the year index): the numbers in ascending order, then the undefined
  entries. \<open>sum += values[i]\<close> turns the sum into NaN at an undefined entry, and
  \<open>sum / numSims\<close> is NaN for no simulations.
\<close>

definition js_sort :: "real option list \<Rightarrow> real option list" where
  "js_sort vs = map Some (sort (List.map_filter id vs)) @ filter (\<lambda>v. v = None) vs"

fun js_add :: "jsnum \<Rightarrow> real option \<Rightarrow> jsnum" where
  "js_add (Num a) (Some b) = Num (a + b)"
| "js_add _ _ = NaN"

fun js_div_nat :: "jsnum \<Rightarrow> nat \<Rightarrow> jsnum" where
  "js_div_nat (Num s) n = (if n = 0 then NaN else Num (s / real n))"
| "js_div_nat NaN n = NaN"

definition bandAt :: "real list list \<Rightarrow> nat \<Rightarrow> band" where
  "bandAt paths y =
     (let numSims = length paths;
          vals = js_sort (map (\<lambda>path. js_get path y) paths);
          sum = foldl js_add (Num 0) vals
      in \<lparr>year = y,
          p5 = Option.bind (js_get vals (floorIndex numSims 0.05)) id,
          p25 = Option.bind (js_get vals (floorIndex numSims 0.25)) id,
          p50 = Option.bind (js_get vals (floorIndex numSims 0.50)) id,
          p75 = Option.bind (js_get vals (floorIndex numSims 0.75)) id,
          p95 = Option.bind (js_get vals (floorIndex numSims 0.95)) id,
          mean = js_div_nat sum numSims\<rparr>)"

definition computeTimeSeriesBands :: "real list list \<Rightarrow> int \<Rightarrow> error + band list" where
  "computeTimeSeriesBands paths years =
     (case new_Array (years + 1) of
        Inl e \<Rightarrow> Inl e
      | Inr len \<Rightarrow> Inr (map (bandAt paths) [0..<len]))"

section \<open>Simulation engine (monteCarloEngine.js)\<close>

text \<open>
  The engine holds the historical data set. \<open>Math.random()\<close> is a stream \<open>rnd\<close> of
  draws, read at a position that each call advances: the position is the state threaded
  through the engine's functions. With a non-empty data set and draws in \<open>[0, 1)\<close> the
  sampled index is in range; the theorems about the engine assume both (on an empty data
  set the code would read \<open>undefined\<close> returns and compute NaN outcomes).
\<close>

record engine =
  returns :: "real list"
  meanReturn :: real
  stdDev :: real

text \<open>
  A stub for the source of randomness, for running the engine on concrete inputs: every
  draw is \<open>u\<close>.
\<close>

definition constantDraws :: "real \<Rightarrow> nat \<Rightarrow> real" where
  "constantDraws u k = u"

definition generateReturnPath ::
  "engine \<Rightarrow> (nat \<Rightarrow> real) \<Rightarrow> int \<Rightarrow> nat \<Rightarrow> error + (real list \<times> nat)" where
  "generateReturnPath e rnd years s =
     (case new_Array years of
        Inl err \<Rightarrow> Inl err
      | Inr len \<Rightarrow>
          Inr (map (\<lambda>i. let randomIndex = nat \<lfloor>rnd (s + i) * real (length (returns e))\<rfloor>
                         in returns e ! randomIndex) [0..<len],
               s + len))"

text \<open>
  An array write \<open>xs[i] = v\<close> on an array with empty slots: beyond the end it extends the
  array, leaving the slots in between empty.
\<close>

definition js_set :: "'a option list \<Rightarrow> nat \<Rightarrow> 'a \<Rightarrow> 'a option list" where
  "js_set xs i v =
     (if i < length xs then xs[i := Some v]
      else xs @ replicate (i - length xs) None @ [Some v])"

text \<open>
  The yearly loop of \<open>calculateStockScenarioWithPath\<close>: the state is
  \<open>(stockValue, totalInvested, yearlyValues)\<close>, and \<open>yr\<close> is the loop index \<open>year\<close>.
\<close>

fun stockLoopWithPath ::
  "real \<Rightarrow> real list \<Rightarrow> nat \<Rightarrow> real \<times> real \<times> real option list
     \<Rightarrow> real \<times> real \<times> real option list" where
  "stockLoopWithPath monthlyToStock [] yr state = state"
| "stockLoopWithPath monthlyToStock (annualReturn # rest) yr
       (stockValue, totalInvested, yearlyValues) =
     (let annualContribution = monthlyToStock * 12;
          stockValue' = (stockValue + annualContribution) * (1 + annualReturn)
      in stockLoopWithPath monthlyToStock rest (yr + 1)
           (stockValue', totalInvested + annualContribution,
            js_set yearlyValues (yr + 1) stockValue'))"

definition calculateStockScenarioWithPath ::
  "real \<Rightarrow> real \<Rightarrow> real list \<Rightarrow> real \<Rightarrow> int \<Rightarrow> error + (real \<times> real option list)" where
  "calculateStockScenarioWithPath monthlyAmount allocation rets mortgageRate years =
     (let monthlyToStock = monthlyAmount * allocation;
          monthlyToMortgage = monthlyAmount * (1 - allocation)
      in case new_Array (years + 1) of
           Inl err \<Rightarrow> Inl err
         | Inr len \<Rightarrow>
             let (stockValue, totalInvested, yearlyValues) =
                   stockLoopWithPath monthlyToStock rets 0
                     (0, 0, js_set (replicate len None) 0 0);
                 capitalGains = max 0 (stockValue - totalInvested);
                 tax = capitalGains * NORWEGIAN_TAX_RATE;
                 afterTaxStockValue = stockValue - tax;
                 mortgageSavings =
                   calculateMortgageSavingsValue monthlyToMortgage years mortgageRate
             in Inr (afterTaxStockValue + mortgageSavings, yearlyValues))"


record params =
  monthlyInvestment :: real
  timeHorizon :: int
  mortgageRate :: real
  stockAllocation :: real           \<comment> \<open>0 to 100; the fraction is \<open>stockAllocation / 100\<close>\<close>
  numSimulations :: "int option"    \<comment> \<open>\<open>None\<close> when omitted: the default 10000 applies\<close>

text \<open>
  The trial loop of \<open>runSimulation\<close>, with the number of trials still to run: each trial
  draws a return path and values both scenarios; an error of the path generator ends the
  run.
\<close>

fun simulationLoop ::
  "engine \<Rightarrow> (nat \<Rightarrow> real) \<Rightarrow> params \<Rightarrow> nat \<Rightarrow> nat \<Rightarrow> error + (real list \<times> real list)" where
  "simulationLoop e rnd ps 0 s = Inr ([], [])"
| "simulationLoop e rnd ps (Suc k) s =
     (case generateReturnPath e rnd (timeHorizon ps) s of
        Inl err \<Rightarrow> Inl err
      | Inr (rets, s') \<Rightarrow>
          let stockResult =
                calculateStockScenario (monthlyInvestment ps) (stockAllocation ps / 100) rets
                  (mortgageRate ps) (timeHorizon ps);
              mortgageResult =
                calculateMortgageScenario (monthlyInvestment ps) (timeHorizon ps)
                  (mortgageRate ps)
          in (case simulationLoop e rnd ps k s' of
                Inl err \<Rightarrow> Inl err
              | Inr (stockResults, mortgageResults) \<Rightarrow>
                  Inr (stockResult # stockResults, mortgageResult # mortgageResults)))"

record results =
  stock :: "real list"
  mortgage :: "real list"

definition trialCount :: "params \<Rightarrow> int" where
  "trialCount ps = (case numSimulations ps of None \<Rightarrow> 10000 | Some n \<Rightarrow> n)"

definition runSimulation :: "engine \<Rightarrow> (nat \<Rightarrow> real) \<Rightarrow> params \<Rightarrow> nat \<Rightarrow> error + results" where
  "runSimulation e rnd ps s =
     (case new_Array (trialCount ps) of
        Inl err \<Rightarrow> Inl err
      | Inr n \<Rightarrow>
          (case simulationLoop e rnd ps n s of
             Inl err \<Rightarrow> Inl err
           | Inr (stockResults, mortgageResults) \<Rightarrow>
               Inr \<lparr>stock = stockResults, mortgage = mortgageResults\<rparr>))"




section \<open>Auxiliary facts\<close>

lemma floorIndex_mono: "0 \<le> p \<Longrightarrow> p \<le> q \<Longrightarrow> floorIndex n p \<le> floorIndex n q"
  unfolding floorIndex_def
  by (intro nat_mono floor_mono mult_left_mono) simp_all

lemma floorIndex_less: "0 < n \<Longrightarrow> 0 \<le> p \<Longrightarrow> p < 1 \<Longrightarrow> floorIndex n p < n"
proof -
  assume n: "0 < n" and p: "0 \<le> p" "p < 1"
  have "real n * p < real n" using n p by simp
  then have "\<lfloor>real n * p\<rfloor> < int n" by (simp add: floor_less_iff)
  moreover have "0 \<le> \<lfloor>real n * p\<rfloor>" using p by simp
  ultimately show ?thesis unfolding floorIndex_def by linarith
qed

lemma floorIndex_half: "floorIndex n (1 / 2) = n div 2"
proof -
  have "\<lfloor>real n / 2\<rfloor> = int n div 2"
    by (metis floor_divide_of_nat_eq of_nat_numeral of_nat_div)
  then show ?thesis unfolding floorIndex_def by simp
qed

lemma wins_fold_card:
  "fold (\<lambda>i wins. if P i then wins + 1 else wins) [0..<n] (0::nat) = card {i. i < n \<and> P i}"
proof (induction n)
  case 0
  then show ?case by simp
next
  case (Suc n)
  have fin: "finite {i. i < n \<and> P i}" by simp
  have notin: "n \<notin> {i. i < n \<and> P i}" by simp
  show ?case
  proof (cases "P n")
    case True
    then have "{i. i < Suc n \<and> P i} = insert n {i. i < n \<and> P i}"
      by (auto simp: less_Suc_eq)
    with Suc True fin notin show ?thesis by simp
  next
    case False
    then have "{i. i < Suc n \<and> P i} = {i. i < n \<and> P i}"
      by (auto simp: less_Suc_eq)
    with Suc False show ?thesis by simp
  qed
qed

lemma foldl_plus_sum_list: "foldl (\<lambda>sum val. sum + val) a xs = a + sum_list (xs :: real list)"
  by (induction xs arbitrary: a) simp_all

lemma calculateStatistics_keys:
  "calculateStatistics data = Some obj \<Longrightarrow>
   map fst obj = [''mean'', ''median'', ''stdDev'', ''min'', ''max'',
                  ''p5'', ''p25'', ''p50'', ''p75'', ''p95'']"
  by (auto simp: calculateStatistics_def calculatePercentiles_def Let_def split: if_splits)

lemma sort_nth_0: "xs \<noteq> [] \<Longrightarrow> sort xs ! 0 = Min (set (xs :: real list))"
proof -
  assume ne: "xs \<noteq> []"
  have s: "sorted (sort xs)" by simp
  have "sort xs \<noteq> []" using ne by (metis length_sort length_0_conv)
  then obtain y ys where e: "sort xs = y # ys" by (cases "sort xs") auto
  have "set (y # ys) = set xs" using e by (metis set_sort)
  moreover have "\<forall>z \<in> set ys. y \<le> z" using s e by simp
  ultimately have "Min (set xs) = y"
    by (intro Min_eqI) auto
  with e show ?thesis by simp
qed

lemma sort_nth_last: "xs \<noteq> [] \<Longrightarrow> sort xs ! (length xs - 1) = Max (set (xs :: real list))"
proof -
  assume ne: "xs \<noteq> []"
  have s: "sorted (sort xs)" by simp
  have len: "length (sort xs) = length xs" by simp
  have mem: "sort xs ! (length xs - 1) \<in> set xs"
    using ne by (metis len set_sort nth_mem diff_less length_greater_0_conv zero_less_one)
  have "\<And>z. z \<in> set xs \<Longrightarrow> z \<le> sort xs ! (length xs - 1)"
  proof -
    fix z assume "z \<in> set xs"
    then have "z \<in> set (sort xs)" by simp
    then obtain i where i: "i < length (sort xs)" "sort xs ! i = z"
      by (metis in_set_conv_nth)
    then have "sort xs ! i \<le> sort xs ! (length xs - 1)"
      using s by (intro sorted_nth_mono) auto
    with i show "z \<le> sort xs ! (length xs - 1)" by simp
  qed
  with mem show ?thesis by (intro Max_eqI[symmetric]) auto
qed

lemma js_get_sort:
  "0 < length data \<Longrightarrow> 0 \<le> p \<Longrightarrow> p < 1 \<Longrightarrow>
   js_get (sort data) (floorIndex (length data) p) = Some (sort data ! floorIndex (length data) p)"
  by (simp add: js_get_def floorIndex_less)

lemma map_filter_id_Some: "List.map_filter id (map (\<lambda>p. Some (f p)) ps) = map f ps"
  by (induction ps) (simp_all add: List.map_filter_simps)

lemma filter_None_Some: "filter (\<lambda>v. v = None) (map (\<lambda>p. Some (f p)) ps) = []"
  by (induction ps) simp_all

lemma js_sort_defined: "js_sort (map (\<lambda>p. Some (f p)) ps) = map Some (sort (map f ps))"
  by (simp add: js_sort_def map_filter_id_Some filter_None_Some)

lemma column_defined:
  "(\<And>p. p \<in> set paths \<Longrightarrow> y < length p) \<Longrightarrow>
   map (\<lambda>path. js_get path y) paths = map (\<lambda>path. Some (path ! y)) paths"
  by (simp add: js_get_def)

lemma band_read:
  "i < length xs \<Longrightarrow> Option.bind (js_get (map Some xs) i) id = Some (xs ! i)"
  by (simp add: js_get_def)

lemma bandAt_ordered:
  assumes ne: "paths \<noteq> []" and rows: "\<And>p. p \<in> set paths \<Longrightarrow> y < length p"
  shows "\<exists>a b c d e. year (bandAt paths y) = y
           \<and> p5 (bandAt paths y) = Some a \<and> p25 (bandAt paths y) = Some b
           \<and> p50 (bandAt paths y) = Some c \<and> p75 (bandAt paths y) = Some d
           \<and> p95 (bandAt paths y) = Some e
           \<and> a \<le> b \<and> b \<le> c \<and> c \<le> d \<and> d \<le> e"
proof -
  define n where "n = length paths"
  define col where "col = sort (map (\<lambda>path. path ! y) paths)"
  have pos: "0 < n" using ne by (simp add: n_def)
  have len: "length col = n" by (simp add: col_def n_def)
  have srt: "sorted col" by (simp add: col_def)
  have vals: "js_sort (map (\<lambda>path. js_get path y) paths) = map Some col"
  proof -
    have "map (\<lambda>path. js_get path y) paths = map (\<lambda>path. Some (path ! y)) paths"
      by (rule column_defined) (rule rows)
    then show ?thesis by (simp only: js_sort_defined col_def)
  qed
  have i95: "floorIndex n 0.95 < n" using pos by (simp add: floorIndex_less)
  have m1: "floorIndex n 0.05 \<le> floorIndex n 0.25" by (rule floorIndex_mono) simp_all
  have m2: "floorIndex n 0.25 \<le> floorIndex n 0.50" by (rule floorIndex_mono) simp_all
  have m3: "floorIndex n 0.50 \<le> floorIndex n 0.75" by (rule floorIndex_mono) simp_all
  have m4: "floorIndex n 0.75 \<le> floorIndex n 0.95" by (rule floorIndex_mono) simp_all
  have o1: "col ! floorIndex n 0.05 \<le> col ! floorIndex n 0.25"
    using srt m1 m2 m3 m4 i95 len by (intro sorted_nth_mono) simp_all
  have o2: "col ! floorIndex n 0.25 \<le> col ! floorIndex n 0.50"
    using srt m1 m2 m3 m4 i95 len by (intro sorted_nth_mono) simp_all
  have o3: "col ! floorIndex n 0.50 \<le> col ! floorIndex n 0.75"
    using srt m1 m2 m3 m4 i95 len by (intro sorted_nth_mono) simp_all
  have o4: "col ! floorIndex n 0.75 \<le> col ! floorIndex n 0.95"
    using srt m1 m2 m3 m4 i95 len by (intro sorted_nth_mono) simp_all
  have r5: "p5 (bandAt paths y) = Some (col ! floorIndex n 0.05)"
    using m1 m2 m3 m4 i95 len
    by (simp add: bandAt_def Let_def vals n_def [symmetric] band_read)
  have r25: "p25 (bandAt paths y) = Some (col ! floorIndex n 0.25)"
    using m1 m2 m3 m4 i95 len
    by (simp add: bandAt_def Let_def vals n_def [symmetric] band_read)
  have r50: "p50 (bandAt paths y) = Some (col ! floorIndex n 0.50)"
    using m1 m2 m3 m4 i95 len
    by (simp add: bandAt_def Let_def vals n_def [symmetric] band_read)
  have r75: "p75 (bandAt paths y) = Some (col ! floorIndex n 0.75)"
    using m1 m2 m3 m4 i95 len
    by (simp add: bandAt_def Let_def vals n_def [symmetric] band_read)
  have r95: "p95 (bandAt paths y) = Some (col ! floorIndex n 0.95)"
    using m1 m2 m3 m4 i95 len
    by (simp add: bandAt_def Let_def vals n_def [symmetric] band_read)
  have yr: "year (bandAt paths y) = y" by (simp add: bandAt_def Let_def)
  from yr r5 r25 r50 r75 r95 o1 o2 o3 o4 show ?thesis by blast
qed

lemma new_Array_Inr: "0 \<le> n \<Longrightarrow> n \<le> 4294967295 \<Longrightarrow> new_Array n = Inr (nat n)"
  by (simp add: new_Array_def)


lemma generateReturnPath_Inr:
  "0 \<le> h \<Longrightarrow> h \<le> 4294967295 \<Longrightarrow>
   generateReturnPath e rnd h s =
     Inr (map (\<lambda>i. returns e ! nat \<lfloor>rnd (s + i) * real (length (returns e))\<rfloor>) [0..<nat h],
          s + nat h)"
  by (simp add: generateReturnPath_def new_Array_Inr)


lemma map_upt_Suc_shift: "map f [0..<Suc k] = f 0 # map (\<lambda>i. f (Suc i)) [0..<k]"
  by (simp only: map_upt_Suc)

lemma simulationLoop_Inr:
  assumes h: "0 \<le> timeHorizon ps" "timeHorizon ps \<le> 4294967295"
  shows "simulationLoop e rnd ps k s =
     Inr (map (\<lambda>i. calculateStockScenario (monthlyInvestment ps) (stockAllocation ps / 100)
                      (map (\<lambda>j. returns e !
                               nat \<lfloor>rnd (s + i * nat (timeHorizon ps) + j) * real (length (returns e))\<rfloor>)
                         [0..<nat (timeHorizon ps)])
                      (mortgageRate ps) (timeHorizon ps)) [0..<k],
          replicate k (calculateMortgageScenario (monthlyInvestment ps) (timeHorizon ps)
                         (mortgageRate ps)))"
proof (induction k arbitrary: s)
  case 0
  show ?case by simp
next
  case (Suc k)
  show ?case
    unfolding simulationLoop.simps generateReturnPath_Inr [OF h] map_upt_Suc_shift Suc.IH
    by (simp add: add.assoc add.commute)
qed


lemma stockLoop_invested:
  "snd (stockLoop mts rets (sv, ti)) = ti + mts * 12 * real (length rets)"
  by (induction rets arbitrary: sv ti) (simp_all add: Let_def algebra_simps)

lemma stockLoop_no_returns:
  "stockLoop mts (replicate k 0) (sv, ti) = (sv + mts * 12 * real k, ti + mts * 12 * real k)"
  by (induction k arbitrary: sv ti) (simp_all add: Let_def algebra_simps)

lemma js_set_length: "length (js_set xs i v) = max (length xs) (Suc i)"
  by (auto simp: js_set_def)

lemma js_set_defined:
  "(j < length (js_set xs i v) \<and> js_set xs i v ! j \<noteq> None) \<longleftrightarrow>
   (j = i \<or> (j < length xs \<and> xs ! j \<noteq> None))"
  by (auto simp: js_set_def nth_append nth_list_update)

lemma stockLoopWithPath_state:
  "stockLoopWithPath mts rets yr (sv, ti, yv) = (sv', ti', yv') \<Longrightarrow>
   (sv', ti') = stockLoop mts rets (sv, ti)
   \<and> length yv' = (if rets = [] then length yv else max (length yv) (yr + length rets + 1))
   \<and> (\<forall>j. (j < length yv' \<and> yv' ! j \<noteq> None) \<longleftrightarrow>
            ((j < length yv \<and> yv ! j \<noteq> None) \<or> (yr < j \<and> j \<le> yr + length rets)))"
proof (induction rets arbitrary: yr sv ti yv)
  case Nil
  then show ?case by auto
next
  case (Cons r rest)
  let ?sv = "(sv + mts * 12) * (1 + r)"
  let ?yv = "js_set yv (yr + 1) ?sv"
  from Cons.prems have run:
    "stockLoopWithPath mts rest (yr + 1) (?sv, ti + mts * 12, ?yv) = (sv', ti', yv')"
    by (simp add: Let_def)
  note ih = Cons.IH [OF run]
  have a: "(sv', ti') = stockLoop mts (r # rest) (sv, ti)"
    using ih by (simp add: Let_def)
  have b: "length yv' = max (length yv) (yr + length (r # rest) + 1)"
  proof -
    have "length yv' = (if rest = [] then length ?yv else max (length ?yv) (yr + 1 + length rest + 1))"
      using ih by blast
    then show ?thesis
      by (cases "rest = []") (simp_all add: js_set_length)
  qed
  have c: "(j < length yv' \<and> yv' ! j \<noteq> None) \<longleftrightarrow>
            ((j < length yv \<and> yv ! j \<noteq> None) \<or> (yr < j \<and> j \<le> yr + length (r # rest)))" for j
  proof -
    have "(j < length yv' \<and> yv' ! j \<noteq> None) \<longleftrightarrow>
       ((j < length ?yv \<and> ?yv ! j \<noteq> None) \<or> (yr + 1 < j \<and> j \<le> yr + 1 + length rest))"
      using ih by blast
    also have "\<dots> \<longleftrightarrow> ((j = yr + 1 \<or> (j < length yv \<and> yv ! j \<noteq> None))
         \<or> (yr + 1 < j \<and> j \<le> yr + 1 + length rest))"
      by (simp only: js_set_defined)
    also have "\<dots> \<longleftrightarrow> ((j < length yv \<and> yv ! j \<noteq> None) \<or> (yr < j \<and> j \<le> yr + length (r # rest)))"
      by auto
    finally show ?thesis .
  qed
  from a b c show ?case by simp
qed

lemma calculateStockScenarioWithPath_Inr:
  assumes y: "- 1 \<le> years" "years < 4294967295"
  shows "\<exists>yv. calculateStockScenarioWithPath m a rets rate years =
                Inr (calculateStockScenario m a rets rate years, yv)
           \<and> length yv = max (nat (years + 1)) (length rets + 1)
           \<and> (\<forall>j < length yv. yv ! j \<noteq> None \<longleftrightarrow> j \<le> length rets)"
proof -
  define len where "len = nat (years + 1)"
  define init where "init = js_set (replicate len (None :: real option)) 0 0"
  have na: "new_Array (years + 1) = Inr len"
    using y by (simp add: new_Array_Inr len_def)
  obtain sv ti yv where run: "stockLoopWithPath (m * a) rets 0 (0, 0, init) = (sv, ti, yv)"
    by (metis prod_cases3)
  note st = stockLoopWithPath_state [OF run]
  have loop: "stockLoop (m * a) rets (0, 0) = (sv, ti)" using st by simp
  have il: "length init = max len 1" by (simp add: init_def js_set_length)
  have idef: "(j < length init \<and> init ! j \<noteq> None) \<longleftrightarrow> j = 0" for j
    unfolding init_def js_set_defined by auto
  have l: "length yv = max len (length rets + 1)"
    using st il by (cases rets) auto
  have d: "(j < length yv \<and> yv ! j \<noteq> None) \<longleftrightarrow> j \<le> length rets" for j
  proof -
    have "(j < length yv \<and> yv ! j \<noteq> None) \<longleftrightarrow>
       ((j < length init \<and> init ! j \<noteq> None) \<or> (0 < j \<and> j \<le> 0 + length rets))"
      using st by blast
    also have "\<dots> \<longleftrightarrow> (j = 0 \<or> (0 < j \<and> j \<le> length rets))"
      by (simp only: idef add_0)
    also have "\<dots> \<longleftrightarrow> j \<le> length rets" by auto
    finally show ?thesis .
  qed
  have res: "calculateStockScenarioWithPath m a rets rate years =
      Inr (calculateStockScenario m a rets rate years, yv)"
    by (simp add: calculateStockScenarioWithPath_def calculateStockScenario_def Let_def na
        init_def [symmetric] run loop)
  from res l d show ?thesis unfolding len_def by blast
qed





subsection \<open>Rounding to doubles\<close>

lemma ilog2_bounds:
  "1 \<le> n \<Longrightarrow> 0 \<le> ilog2 n \<and> 2 ^ nat (ilog2 n) \<le> n \<and> n < 2 * 2 ^ nat (ilog2 n)"
proof (induction n rule: ilog2.induct)
  case (1 n)
  show ?case
  proof (cases "n < 2")
    case True
    with "1.prems" have "n = 1" by simp
    then show ?thesis by (simp add: ilog2.simps)
  next
    case False
    then have h: "1 \<le> n div 2" by simp
    define k where "k = ilog2 (n div 2)"
    have ih: "0 \<le> k" "2 ^ nat k \<le> n div 2" "n div 2 < 2 * 2 ^ nat k"
      using "1.IH" [OF False h] by (simp_all add: k_def)
    have e: "ilog2 n = 1 + k" using False by (simp add: ilog2.simps [of n] k_def)
    have p: "(2 :: int) ^ nat (1 + k) = 2 * 2 ^ nat k"
      using ih(1) by (simp add: nat_add_distrib)
    have lo: "2 * 2 ^ nat k \<le> n" using ih(2) by linarith
    have "n div 2 + 1 \<le> 2 * 2 ^ nat k" using ih(3) by simp
    then have hi: "n < 2 * (2 * 2 ^ nat k)" by linarith
    show ?thesis unfolding e p using ih(1) lo hi by simp
  qed
qed

lemma powi_nat: "0 \<le> k \<Longrightarrow> (2 :: real) powi k = 2 ^ nat k"
  by (simp add: power_int_def)

lemma ilog2_real_bounds:
  assumes "1 \<le> n"
  shows "2 powi (ilog2 n) \<le> real_of_int n" and "real_of_int n < 2 powi (ilog2 n + 1)"
proof -
  from ilog2_bounds [OF assms]
  have k: "0 \<le> ilog2 n" and lo: "2 ^ nat (ilog2 n) \<le> n" and hi: "n < 2 * 2 ^ nat (ilog2 n)"
    by simp_all
  have "real_of_int (2 ^ nat (ilog2 n)) \<le> real_of_int n" using lo by (simp only: of_int_le_iff)
  then show "2 powi (ilog2 n) \<le> real_of_int n" using k by (simp add: powi_nat)
  have "real_of_int n < real_of_int (2 * 2 ^ nat (ilog2 n))" using hi by (simp only: of_int_less_iff)
  then show "real_of_int n < 2 powi (ilog2 n + 1)"
    using k by (simp add: powi_nat nat_add_distrib)
qed

lemma binaryExponent_bounds:
  assumes "0 < x"
  shows "2 powi (binaryExponent x) \<le> x \<and> x < 2 powi (binaryExponent x + 1)"
proof (cases "1 \<le> x")
  case True
  then have n: "1 \<le> \<lfloor>x\<rfloor>" by simp
  have e: "binaryExponent x = ilog2 \<lfloor>x\<rfloor>" using True by (simp add: binaryExponent_def)
  have "2 powi (ilog2 \<lfloor>x\<rfloor>) \<le> real_of_int \<lfloor>x\<rfloor>" using n by (rule ilog2_real_bounds)
  then have lo: "2 powi (ilog2 \<lfloor>x\<rfloor>) \<le> x" by linarith
  from ilog2_bounds [OF n] have k: "0 \<le> ilog2 \<lfloor>x\<rfloor>"
    and "\<lfloor>x\<rfloor> < 2 * 2 ^ nat (ilog2 \<lfloor>x\<rfloor>)" by simp_all
  then have "x < real_of_int (2 * 2 ^ nat (ilog2 \<lfloor>x\<rfloor>))" by (simp only: floor_less_iff)
  then have "x < 2 * 2 ^ nat (ilog2 \<lfloor>x\<rfloor>)" by simp
  then have hi: "x < 2 powi (ilog2 \<lfloor>x\<rfloor> + 1)" using k by (simp add: powi_nat nat_add_distrib)
  from lo hi show ?thesis unfolding e by simp
next
  case False
  then have x1: "x < 1" by simp
  define y where "y = 1 / x"
  have y1: "1 < y" using assms x1 by (simp add: y_def)
  then have n: "1 \<le> \<lfloor>y\<rfloor>" by simp
  define k where "k = ilog2 \<lfloor>y\<rfloor>"
  from ilog2_bounds [OF n] have k0: "0 \<le> k"
    and klo: "2 ^ nat k \<le> \<lfloor>y\<rfloor>" and khi: "\<lfloor>y\<rfloor> < 2 * 2 ^ nat k" by (simp_all add: k_def)
  have "real_of_int (2 ^ nat k) \<le> y" using klo by (simp only: le_floor_iff)
  then have ylo: "2 ^ nat k \<le> y" by simp
  have "y < real_of_int (2 * 2 ^ nat k)" using khi by (simp only: floor_less_iff)
  then have yhi: "y < 2 * 2 ^ nat k" by simp
  have xy: "x = 1 / y" using assms by (simp add: y_def)
  have pk: "(0 :: real) < 2 ^ nat k" by simp
  have xhi: "x \<le> 1 / 2 ^ nat k"
    unfolding xy using ylo pk y1 by (simp add: frac_le)
  have xlo: "1 / (2 * 2 ^ nat k) < x"
    unfolding xy using yhi pk y1 by (simp add: frac_less2)
  have m1: "(2 :: real) powi (- k) = 1 / 2 ^ nat k"
    using k0 by (simp add: power_int_def field_simps)
  have m2: "(2 :: real) powi (- k - 1) = 1 / (2 * 2 ^ nat k)"
    using k0 by (simp add: power_int_def nat_add_distrib field_simps)
  have "(2 :: real) powi (- k + 1) = 2 powi (- k) * 2 powi 1"
    by (rule power_int_add) simp
  then have m3: "(2 :: real) powi (- k + 1) = 2 / 2 ^ nat k"
    by (simp only: m1) simp
  have be: "binaryExponent x = (if x = 2 powi (- k) then - k else - k - 1)"
    using x1 by (simp add: binaryExponent_def Let_def y_def k_def)
  show ?thesis
  proof (cases "x = 2 powi (- k)")
    case True
    have e: "binaryExponent x = - k" using be True by simp
    have "x < 2 / 2 ^ nat k" using True m1 pk by (simp add: field_simps)
    then show ?thesis unfolding e m3 using True by simp
  next
    case neq: False
    have e: "binaryExponent x = - k - 1" using be neq by simp
    have "x < 1 / 2 ^ nat k" using xhi neq m1 by simp
    then show ?thesis unfolding e using xlo m1 m2 by simp
  qed
qed


lemma powi_of_int: "0 \<le> k \<Longrightarrow> (2 :: real) powi k = of_int (2 ^ nat k)"
  by (simp add: power_int_def)

lemma powi_pos: "(0 :: real) < 2 powi k"
  by (simp add: zero_less_power_int)

lemma binaryExponent_unique:
  assumes lo: "2 powi e \<le> x" and hi: "x < 2 powi (e + 1)"
  shows "binaryExponent x = e"
proof -
  have pos: "0 < x" using lo powi_pos [of e] by linarith
  define b where "b = binaryExponent x"
  have blo: "2 powi b \<le> x" and bhi: "x < 2 powi (b + 1)"
    using binaryExponent_bounds [OF pos] by (simp_all add: b_def)
  have "\<not> b + 1 \<le> e"
  proof
    assume "b + 1 \<le> e"
    then have "(2 :: real) powi (b + 1) \<le> 2 powi e" by (intro power_int_increasing) simp_all
    with lo bhi show False by linarith
  qed
  moreover have "\<not> e + 1 \<le> b"
  proof
    assume "e + 1 \<le> b"
    then have "(2 :: real) powi (e + 1) \<le> 2 powi b" by (intro power_int_increasing) simp_all
    with blo hi show False by linarith
  qed
  ultimately show ?thesis unfolding b_def by linarith
qed

lemma roundHalfEven_floor: "\<lfloor>t\<rfloor> \<le> roundHalfEven t \<and> roundHalfEven t \<le> \<lfloor>t\<rfloor> + 1"
  by (simp add: roundHalfEven_def Let_def)

lemma roundHalfEven_of_int: "roundHalfEven (of_int m) = m"
  by (simp add: roundHalfEven_def Let_def)

lemma roundHalfEven_mono:
  assumes "a \<le> b"
  shows "roundHalfEven a \<le> roundHalfEven b"
proof (cases "\<lfloor>a\<rfloor> = \<lfloor>b\<rfloor>")
  case True
  have "a - of_int \<lfloor>b\<rfloor> \<le> b - of_int \<lfloor>b\<rfloor>" using assms by simp
  then show ?thesis
    unfolding roundHalfEven_def Let_def True by auto
next
  case False
  then have "\<lfloor>a\<rfloor> < \<lfloor>b\<rfloor>" using floor_mono [OF assms] by linarith
  then show ?thesis
    using roundHalfEven_floor [of a] roundHalfEven_floor [of b] by linarith
qed

lemma roundHalfEven_le_int: "t \<le> of_int m \<Longrightarrow> roundHalfEven t \<le> m"
  using roundHalfEven_mono [of t "of_int m"] by (simp add: roundHalfEven_of_int)

lemma int_le_roundHalfEven: "of_int m \<le> t \<Longrightarrow> m \<le> roundHalfEven t"
  using roundHalfEven_mono [of "of_int m" t] by (simp add: roundHalfEven_of_int)

lemma roundHalfEven_minus: "roundHalfEven (- t) = - roundHalfEven t"
proof (cases "t = of_int \<lfloor>t\<rfloor>")
  case True
  then obtain m where m: "t = of_int m" ..
  have "- t = of_int (- m)" using m by simp
  then have "roundHalfEven (- t) = - m" by (simp only: roundHalfEven_of_int)
  then show ?thesis using m by (simp add: roundHalfEven_of_int)
next
  case False
  define f where "f = \<lfloor>t\<rfloor>"
  have lo: "of_int f < t" using False unfolding f_def
    by (metis of_int_floor_le order_le_less)
  have hi: "t < of_int f + 1" unfolding f_def by linarith
  have fl: "\<lfloor>- t\<rfloor> = - f - 1"
    by (rule floor_unique) (use lo hi in simp_all)
  have ev: "even (- f - 1) \<longleftrightarrow> odd f" by simp
  show ?thesis
    unfolding roundHalfEven_def Let_def fl f_def [symmetric] ev
    using lo hi by (auto simp: algebra_simps)
qed

lemma roundToGrid_minus: "roundToGrid (- x) = - roundToGrid x"
  by (simp add: roundToGrid_def Let_def roundHalfEven_minus)

lemma roundToGrid_nonneg:
  assumes "0 \<le> x"
  shows "0 \<le> roundToGrid x"
proof (cases "x = 0")
  case True
  then show ?thesis by (simp add: roundToGrid_def)
next
  case False
  define u :: real where "u = 2 powi (max (binaryExponent \<bar>x\<bar> - 52) (- 1074))"
  have u: "0 < u" unfolding u_def by (rule powi_pos)
  have "of_int 0 \<le> x / u" using assms u by simp
  then have "0 \<le> roundHalfEven (x / u)" by (rule int_le_roundHalfEven)
  then have "0 \<le> of_int (roundHalfEven (x / u)) * u" using u by simp
  then show ?thesis using False by (simp add: roundToGrid_def Let_def u_def)
qed

lemma roundToGrid_mono_pos:
  assumes x: "0 < x" and xy: "x \<le> y"
  shows "roundToGrid x \<le> roundToGrid y"
proof -
  have y: "0 < y" using x xy by simp
  define ex where "ex = binaryExponent x"
  define ey where "ey = binaryExponent y"
  define qx where "qx = max (ex - 52) (- 1074)"
  define qy where "qy = max (ey - 52) (- 1074)"
  define ux :: real where "ux = 2 powi qx"
  define uy :: real where "uy = 2 powi qy"
  have bx: "2 powi ex \<le> x" "x < 2 powi (ex + 1)"
    using binaryExponent_bounds [OF x] by (simp_all add: ex_def)
  have bey: "2 powi ey \<le> y" "y < 2 powi (ey + 1)"
    using binaryExponent_bounds [OF y] by (simp_all add: ey_def)
  have ux: "0 < ux" and uy: "0 < uy" unfolding ux_def uy_def by (rule powi_pos)+
  have rx: "roundToGrid x = of_int (roundHalfEven (x / ux)) * ux"
    using x by (simp add: roundToGrid_def Let_def ux_def qx_def ex_def)
  have ry: "roundToGrid y = of_int (roundHalfEven (y / uy)) * uy"
    using y by (simp add: roundToGrid_def Let_def uy_def qy_def ey_def)
  have exy: "ex \<le> ey"
  proof (rule ccontr)
    assume "\<not> ex \<le> ey"
    then have "ey + 1 \<le> ex" by simp
    then have "(2 :: real) powi (ey + 1) \<le> 2 powi ex" by (intro power_int_increasing) simp_all
    with bx(1) bey(2) xy show False by linarith
  qed
  show ?thesis
  proof (cases "qx = qy")
    case True
    then have u: "ux = uy" by (simp add: ux_def uy_def)
    have "x / uy \<le> y / uy" using xy uy by (simp add: divide_right_mono)
    then have "roundHalfEven (x / uy) \<le> roundHalfEven (y / uy)" by (rule roundHalfEven_mono)
    then have "real_of_int (roundHalfEven (x / uy)) * uy \<le> real_of_int (roundHalfEven (y / uy)) * uy"
      using uy by (simp add: mult_right_mono)
    then show ?thesis unfolding rx ry u .
  next
    case False
    then have qlt: "qx < qy" using exy unfolding qx_def qy_def by linarith
    then have qy': "qy = ey - 52" unfolding qx_def qy_def by linarith
    have elt: "ex + 1 \<le> ey" using qlt unfolding qx_def qy_def by linarith
    define B :: real where "B = 2 powi ey"
    have "(2 :: real) powi ey = 2 powi 52 * 2 powi (ey - 52)"
      using power_int_add [of "2 :: real" 52 "ey - 52"] by simp
    then have Bu: "B = of_int (2 ^ 52) * uy" unfolding B_def uy_def qy' by simp
    have "of_int (2 ^ 52) * uy \<le> y" using bey(1) Bu B_def by simp
    then have "of_int (2 ^ 52) \<le> y / uy" using uy by (simp add: pos_le_divide_eq)
    then have "2 ^ 52 \<le> roundHalfEven (y / uy)" by (rule int_le_roundHalfEven)
    then have "real_of_int (2 ^ 52) \<le> real_of_int (roundHalfEven (y / uy))"
      by (simp only: of_int_le_iff)
    then have "real_of_int (2 ^ 52) * uy \<le> real_of_int (roundHalfEven (y / uy)) * uy"
      using uy by (simp only: mult_le_cancel_right_pos)
    then have lowy: "B \<le> roundToGrid y" unfolding ry Bu .
    have dq: "0 \<le> ey - qx" using qlt qy' by simp
    define N :: int where "N = 2 ^ nat (ey - qx)"
    have "(2 :: real) powi ey = 2 powi (ey - qx) * 2 powi qx"
      using power_int_add [of "2 :: real" "ey - qx" qx] by simp
    then have BN: "B = of_int N * ux"
      unfolding B_def ux_def N_def using powi_of_int [OF dq] by simp
    have "(2 :: real) powi (ex + 1) \<le> 2 powi ey" using elt by (intro power_int_increasing) simp_all
    then have "x \<le> of_int N * ux" using bx(2) BN B_def by simp
    then have "x / ux \<le> of_int N" using ux by (simp add: pos_divide_le_eq)
    then have "roundHalfEven (x / ux) \<le> N" by (rule roundHalfEven_le_int)
    then have "real_of_int (roundHalfEven (x / ux)) \<le> real_of_int N"
      by (simp only: of_int_le_iff)
    then have "real_of_int (roundHalfEven (x / ux)) * ux \<le> real_of_int N * ux"
      using ux by (simp only: mult_le_cancel_right_pos)
    then have upx: "roundToGrid x \<le> B" unfolding rx BN .
    from upx lowy show ?thesis by simp
  qed
qed

lemma roundToGrid_zero: "roundToGrid 0 = 0"
  by (simp add: roundToGrid_def)

lemma roundToGrid_mono:
  assumes "x \<le> y"
  shows "roundToGrid x \<le> roundToGrid y"
proof -
  consider "0 < x" | "x \<le> 0" "0 \<le> y" | "y < 0" by linarith
  then show ?thesis
  proof cases
    case 1
    then show ?thesis using assms by (rule roundToGrid_mono_pos)
  next
    case 2
    have "roundToGrid (- x) \<ge> 0" using 2(1) by (intro roundToGrid_nonneg) simp
    then have "roundToGrid x \<le> 0" by (simp add: roundToGrid_minus)
    moreover have "0 \<le> roundToGrid y" using 2(2) by (rule roundToGrid_nonneg)
    ultimately show ?thesis by simp
  next
    case 3
    have "roundToGrid (- y) \<le> roundToGrid (- x)"
      using 3 assms by (intro roundToGrid_mono_pos) simp_all
    then show ?thesis by (simp add: roundToGrid_minus)
  qed
qed

lemma roundToGrid_eval:
  assumes "2 powi e \<le> \<bar>x\<bar>" and "\<bar>x\<bar> < 2 powi (e + 1)"
    and "q = max (e - 52) (- 1074)" and "roundHalfEven (x / 2 powi q) = m"
  shows "roundToGrid x = of_int m * 2 powi q"
proof -
  have be: "binaryExponent \<bar>x\<bar> = e" using assms(1,2) by (rule binaryExponent_unique)
  have "0 < \<bar>x\<bar>" using assms(1) powi_pos [of e] by linarith
  then have "x \<noteq> 0" by simp
  then show ?thesis
    by (simp add: roundToGrid_def Let_def be assms(3) [symmetric] assms(4))
qed

lemma roundToGrid_of_int:
  assumes "\<bar>k\<bar> < 2 ^ 53"
  shows "roundToGrid (of_int k) = of_int k"
proof (cases "k = 0")
  case True
  then show ?thesis by (simp add: roundToGrid_zero)
next
  case False
  define x :: real where "x = of_int k"
  define e where "e = binaryExponent \<bar>x\<bar>"
  define q where "q = max (e - 52) (- 1074)"
  have pos: "0 < \<bar>x\<bar>" using False by (simp add: x_def)
  have b: "2 powi e \<le> \<bar>x\<bar>" using binaryExponent_bounds [OF pos] by (simp add: e_def)
  have "real_of_int \<bar>k\<bar> < real_of_int (2 ^ 53)" using assms by (simp only: of_int_less_iff)
  then have "\<bar>x\<bar> < 2 powi 53" by (simp add: x_def)
  with b have "(2 :: real) powi e < 2 powi 53" by linarith
  then have "e < 53" by (rule power_int_le_imp_less_exp [rotated]) simp_all
  then have q0: "q \<le> 0" by (simp add: q_def)
  then have nq: "0 \<le> - q" by simp
  have inv: "1 / (2 :: real) powi q = 2 powi (- q)"
    by (simp add: power_int_minus field_simps)
  have "x / 2 powi q = x * 2 powi (- q)" using inv by (simp add: field_simps)
  also have "\<dots> = of_int (k * 2 ^ nat (- q))"
    using powi_of_int [OF nq] by (simp add: x_def)
  finally have d: "x / 2 powi q = of_int (k * 2 ^ nat (- q))" .
  have "roundToGrid x = of_int (roundHalfEven (x / 2 powi q)) * 2 powi q"
    using pos by (simp add: roundToGrid_def Let_def q_def e_def)
  also have "\<dots> = of_int (k * 2 ^ nat (- q)) * 2 powi q"
    by (simp only: d roundHalfEven_of_int)
  also have "\<dots> = x * 2 powi (- q) * 2 powi q"
    using powi_of_int [OF nq] by (simp add: x_def)
  also have "\<dots> = x" by (simp add: power_int_minus)
  finally show ?thesis by (simp add: x_def)
qed


lemma roundHalfEven_eqI: "\<bar>t - of_int m\<bar> < 1 / 2 \<Longrightarrow> roundHalfEven t = m"
proof -
  assume a: "\<bar>t - of_int m\<bar> < 1 / 2"
  show ?thesis
  proof (cases "of_int m \<le> t")
    case True
    then have "\<lfloor>t\<rfloor> = m" using a by (intro floor_unique) linarith+
    then show ?thesis using a True by (simp add: roundHalfEven_def Let_def)
  next
    case False
    then have "\<lfloor>t\<rfloor> = m - 1" using a by (intro floor_unique) (simp, linarith)+
    then show ?thesis using a False by (simp add: roundHalfEven_def Let_def)
  qed
qed

lemma overflow_cases:
  fixes T :: real
  assumes "0 < T" and "rx \<le> ry"
  shows "d_le (if T \<le> rx then PlusInfinity else if rx \<le> - T then MinusInfinity else Finite rx)
              (if T \<le> ry then PlusInfinity else if ry \<le> - T then MinusInfinity else Finite ry)"
  using assms by auto

lemma toDouble_mono: "x \<le> y \<Longrightarrow> d_le (toDouble x) (toDouble y)"
  unfolding toDouble_def Let_def
  by (rule overflow_cases) (simp_all add: roundToGrid_mono)

lemma toDouble_not_NaN: "toDouble x \<noteq> NotANumber"
  by (simp add: toDouble_def Let_def)

lemma toDouble_zero: "toDouble 0 = Finite 0"
  by (simp add: toDouble_def roundToGrid_zero)

lemma toDouble_nonneg:
  assumes "0 \<le> x"
  shows "toDouble x = PlusInfinity \<or> (\<exists>r. toDouble x = Finite r \<and> 0 \<le> r)"
proof -
  have "0 \<le> roundToGrid x" using assms by (rule roundToGrid_nonneg)
  moreover have "(0 :: real) < 2 ^ 1024" by simp
  ultimately show ?thesis
    unfolding toDouble_def Let_def by (auto simp del: power_numeral)
qed

lemma toDouble_of_int:
  assumes "\<bar>k\<bar> < 2 ^ 53"
  shows "toDouble (of_int k) = Finite (of_int k)"
proof -
  have r: "roundToGrid (of_int k) = of_int k" using assms by (rule roundToGrid_of_int)
  have "real_of_int \<bar>k\<bar> < real_of_int (2 ^ 53)" using assms by (simp only: of_int_less_iff)
  then have a: "\<bar>real_of_int k\<bar> < 2 ^ 53" by simp
  have "(2 :: real) ^ 53 \<le> 2 ^ 1024" by (rule power_increasing) simp_all
  with a have "\<bar>real_of_int k\<bar> < 2 ^ 1024" by linarith
  then have "\<not> 2 ^ 1024 \<le> real_of_int k" "\<not> real_of_int k \<le> - (2 ^ 1024)" by linarith+
  then show ?thesis
    unfolding toDouble_def Let_def r by (simp del: power_numeral)
qed

lemma toDouble_of_nat: "n < 2 ^ 53 \<Longrightarrow> toDouble (real n) = Finite (real n)"
  using toDouble_of_int [of "int n"] by (simp add: nat_less_iff flip: of_nat_power)


lemma toDouble_eval:
  assumes lo: "2 powi e \<le> \<bar>x\<bar>" and hi: "\<bar>x\<bar> < 2 powi (e + 1)"
    and e: "- 1022 \<le> e" "e \<le> 1022"
    and m: "\<bar>x / 2 powi (e - 52) - of_int m\<bar> < 1 / 2"
  shows "toDouble x = Finite (of_int m * 2 powi (e - 52))"
proof -
  define u :: real where "u = 2 powi (e - 52)"
  have u: "0 < u" unfolding u_def by (rule powi_pos)
  have q: "e - 52 = max (e - 52) (- 1074)" using e by simp
  have rh: "roundHalfEven (x / 2 powi (e - 52)) = m" using m by (rule roundHalfEven_eqI)
  have g: "roundToGrid x = of_int m * u"
    unfolding u_def using lo hi q rh by (rule roundToGrid_eval)
  have s: "53 + (e - 52) = e + 1" by simp
  have "(2 :: real) powi (e + 1) = 2 powi 53 * 2 powi (e - 52)"
    unfolding s [symmetric] by (rule power_int_add) simp
  then have top: "(2 :: real) powi (e + 1) = 2 ^ 53 * u" by (simp add: u_def)
  have "\<bar>x\<bar> / u < 2 ^ 53" using hi top u by (simp add: pos_divide_less_eq)
  then have "\<bar>x / u\<bar> < 2 ^ 53" using u by simp
  then have "\<bar>real_of_int m\<bar> < 2 ^ 53 + 1 / 2" using m unfolding u_def by linarith
  then have "real_of_int \<bar>m\<bar> < real_of_int (2 ^ 53 + 1)" by simp
  then have "\<bar>m\<bar> < 2 ^ 53 + 1" by (simp only: of_int_less_iff)
  then have "\<bar>m\<bar> \<le> 2 ^ 53" by simp
  then have "real_of_int \<bar>m\<bar> \<le> real_of_int (2 ^ 53)" by (simp only: of_int_le_iff)
  then have "\<bar>real_of_int m\<bar> * u \<le> 2 ^ 53 * u" using u by simp
  then have b1: "\<bar>real_of_int m * u\<bar> \<le> 2 powi (e + 1)" using u top by (simp add: abs_mult)
  have a1: "(2 :: real) powi (e + 1) \<le> 2 powi 1023"
    using e by (intro power_int_increasing) simp_all
  have a2: "(2 :: real) powi 1023 = 2 ^ 1023" by (simp add: power_int_def del: power_numeral)
  have a3: "(2 :: real) ^ 1023 < 2 ^ 1024" by (rule power_strict_increasing) simp_all
  from b1 a1 have "\<bar>real_of_int m * u\<bar> \<le> 2 powi 1023" by (rule order_trans)
  then have "\<bar>real_of_int m * u\<bar> \<le> 2 ^ 1023" by (simp only: a2)
  then have "\<bar>real_of_int m * u\<bar> < 2 ^ 1024" using a3 by (rule le_less_trans)
  then have "\<not> 2 ^ 1024 \<le> real_of_int m * u" "\<not> real_of_int m * u \<le> - (2 ^ 1024)" by linarith+
  then show ?thesis
    unfolding toDouble_def Let_def g u_def [symmetric] by (simp del: power_numeral)
qed

lemma d_le_refl_toDouble: "d_le (toDouble x) (toDouble x)"
  by (rule toDouble_mono) simp

lemma d_add_toDouble_mono:
  assumes "x \<le> y"
  shows "d_le (d_add (Finite m) (toDouble x)) (d_add (Finite m) (toDouble y))"
proof -
  have le: "d_le (toDouble x) (toDouble y)" using assms by (rule toDouble_mono)
  show ?thesis
  proof (cases "toDouble x")
    case fx: (Finite a)
    show ?thesis
    proof (cases "toDouble y")
      case (Finite b)
      then have "a \<le> b" using le fx by simp
      then have "d_le (toDouble (m + a)) (toDouble (m + b))" by (intro toDouble_mono) simp
      then show ?thesis using fx Finite by simp
    next
      case PlusInfinity
      then show ?thesis using fx toDouble_not_NaN [of "m + a"]
        by (cases "toDouble (m + a)") simp_all
    next
      case MinusInfinity
      then show ?thesis using le fx by simp
    next
      case NotANumber
      then show ?thesis using toDouble_not_NaN [of y] by simp
    qed
  next
    case PlusInfinity
    then show ?thesis using le by (cases "toDouble y") simp_all
  next
    case mx: MinusInfinity
    show ?thesis
    proof (cases "toDouble y")
      case (Finite b)
      then show ?thesis using mx toDouble_not_NaN [of "m + b"]
        by (cases "toDouble (m + b)") simp_all
    next
      case NotANumber
      then show ?thesis using toDouble_not_NaN [of y] by simp
    qed (use mx in simp_all)
  next
    case NotANumber
    then show ?thesis using toDouble_not_NaN [of x] by simp
  qed
qed

lemma toDouble_eval_subnormal:
  assumes nz: "x \<noteq> 0" and hi: "\<bar>x\<bar> < 2 powi (- 1022)"
    and m: "\<bar>x / 2 powi (- 1074) - of_int m\<bar> < 1 / 2"
  shows "toDouble x = Finite (of_int m * 2 powi (- 1074))"
proof -
  define u :: real where "u = 2 powi (- 1074)"
  have u: "0 < u" unfolding u_def by (rule powi_pos)
  define e where "e = binaryExponent \<bar>x\<bar>"
  have pos: "0 < \<bar>x\<bar>" using nz by simp
  have "2 powi e \<le> \<bar>x\<bar>" using binaryExponent_bounds [OF pos] by (simp add: e_def)
  with hi have "(2 :: real) powi e < 2 powi (- 1022)" by linarith
  then have "\<not> - 1022 \<le> e"
    using power_int_increasing [of "- 1022" e "2 :: real"] by auto
  then have q: "max (e - 52) (- 1074) = - 1074" by simp
  have rh: "roundHalfEven (x / 2 powi (- 1074)) = m" using m by (rule roundHalfEven_eqI)
  have "roundToGrid x =
      of_int (roundHalfEven (x / 2 powi (max (e - 52) (- 1074)))) * 2 powi (max (e - 52) (- 1074))"
    using nz by (simp add: roundToGrid_def Let_def e_def)
  then have g: "roundToGrid x = of_int m * u" unfolding q rh u_def .
  have s: "52 + (- 1074) = (- 1022 :: int)" by simp
  have "(2 :: real) powi (- 1022) = 2 powi 52 * 2 powi (- 1074)"
    unfolding s [symmetric] by (rule power_int_add) simp
  then have top: "(2 :: real) powi (- 1022) = 2 ^ 52 * u" by (simp add: u_def)
  have "\<bar>x\<bar> / u < 2 ^ 52" using hi top u by (simp add: pos_divide_less_eq)
  then have "\<bar>x / u\<bar> < 2 ^ 52" using u by simp
  then have "\<bar>real_of_int m\<bar> < 2 ^ 52 + 1 / 2" using m unfolding u_def by linarith
  then have "real_of_int \<bar>m\<bar> < real_of_int (2 ^ 52 + 1)" by simp
  then have "\<bar>m\<bar> < 2 ^ 52 + 1" by (simp only: of_int_less_iff)
  then have "\<bar>m\<bar> \<le> 2 ^ 52" by simp
  then have "real_of_int \<bar>m\<bar> \<le> real_of_int (2 ^ 52)" by (simp only: of_int_le_iff)
  then have mu: "\<bar>real_of_int m\<bar> * u \<le> 2 ^ 52 * u" using u by simp
  have am: "\<bar>real_of_int m * u\<bar> = \<bar>real_of_int m\<bar> * u" using u by (simp add: abs_mult)
  have b1: "\<bar>real_of_int m * u\<bar> \<le> 2 powi (- 1022)" unfolding am top by (fact mu)
  have a1: "(2 :: real) powi (- 1022) \<le> 2 powi 1023" by (intro power_int_increasing) simp_all
  have a2: "(2 :: real) powi 1023 = 2 ^ 1023" by (simp add: power_int_def del: power_numeral)
  have a3: "(2 :: real) ^ 1023 < 2 ^ 1024" by (rule power_strict_increasing) simp_all
  from b1 a1 have "\<bar>real_of_int m * u\<bar> \<le> 2 powi 1023" by (rule order_trans)
  then have "\<bar>real_of_int m * u\<bar> \<le> 2 ^ 1023" by (simp only: a2)
  then have "\<bar>real_of_int m * u\<bar> < 2 ^ 1024" using a3 by (rule le_less_trans)
  then have "\<not> 2 ^ 1024 \<le> real_of_int m * u" "\<not> real_of_int m * u \<le> - (2 ^ 1024)" by linarith+
  then show ?thesis
    unfolding toDouble_def Let_def g u_def [symmetric] by (simp del: power_numeral)
qed

lemma countLoop_NaN:
  "d_div (d_sub (Finite v) (Finite mn)) binWidth = NotANumber \<Longrightarrow>
   countLoop mn binWidth numBins (v # rest) bins = Inl TypeError"
  by (simp add: Let_def)

lemma count_update_sum:
  "i < length bs \<Longrightarrow>
   sum_list (map count (bs[i := (bs ! i)\<lparr>count := count (bs ! i) + 1\<rparr>])) =
     Suc (sum_list (map count bs))"
proof (induction bs arbitrary: i)
  case Nil
  then show ?case by simp
next
  case (Cons b bs)
  then show ?case by (cases i) simp_all
qed

lemma count_update_fields:
  "i < length bs \<Longrightarrow>
   map binStart (bs[i := (bs ! i)\<lparr>count := c\<rparr>]) = map binStart bs
   \<and> map binEnd (bs[i := (bs ! i)\<lparr>count := c\<rparr>]) = map binEnd bs"
  by (simp add: map_update list_update_same_conv)

lemma binIndex_valid:
  assumes v: "mn \<le> v" and ww: "0 < ww" and k: "1 \<le> k" "k < 2 ^ 53"
  shows "\<exists>j. arrayIndex (d_min (d_floor (d_div (d_sub (Finite v) (Finite mn)) (Finite ww)))
                          (d_sub (Finite (of_int k)) (Finite 1))) = Some j
             \<and> int j < k"
proof -
  have top: "d_sub (Finite (of_int k)) (Finite 1) = Finite (of_int (k - 1))"
    using toDouble_of_int [of "k - 1"] k by (simp add: d_sub_def)
  have num: "d_sub (Finite v) (Finite mn) = toDouble (v - mn)" by (simp add: d_sub_def)
  have fin: "arrayIndex (d_min (Finite (of_int f)) (Finite (of_int (k - 1)))) = Some (nat (min f (k - 1)))
      \<and> int (nat (min f (k - 1))) < k" if "0 \<le> f" for f
    using that k by (auto simp: min_def)
  have inf: "arrayIndex (d_min PlusInfinity (Finite (of_int (k - 1)))) = Some (nat (k - 1))
      \<and> int (nat (k - 1)) < k"
    using k by simp
  from toDouble_nonneg [of "v - mn"] v
  consider "toDouble (v - mn) = PlusInfinity" | a where "toDouble (v - mn) = Finite a" "0 \<le> a"
    by auto
  then show ?thesis
  proof cases
    case 1
    then have "d_floor (d_div (d_sub (Finite v) (Finite mn)) (Finite ww)) = PlusInfinity"
      using ww by (simp add: num signedInfinity_def)
    then show ?thesis unfolding top using inf by auto
  next
    case 2
    have q: "d_div (d_sub (Finite v) (Finite mn)) (Finite ww) = toDouble (a / ww)"
      using 2 ww by (simp add: num)
    from toDouble_nonneg [of "a / ww"] 2(2) ww
    consider "toDouble (a / ww) = PlusInfinity" | c where "toDouble (a / ww) = Finite c" "0 \<le> c"
      by auto
    then show ?thesis
    proof cases
      case 1
      then show ?thesis unfolding q top using inf by auto
    next
      case 2
      then have "d_floor (toDouble (a / ww)) = Finite (of_int \<lfloor>c\<rfloor>)" "0 \<le> \<lfloor>c\<rfloor>" by simp_all
      then show ?thesis unfolding q top using fin [of "\<lfloor>c\<rfloor>"] by auto
    qed
  qed
qed

lemma countLoop_Inr:
  assumes ww: "0 < ww" and k: "1 \<le> k" "k < 2 ^ 53"
  shows "(\<And>v. v \<in> set vals \<Longrightarrow> mn \<le> v) \<Longrightarrow> int (length bins) = k \<Longrightarrow>
   \<exists>counted. countLoop mn (Finite ww) (Finite (of_int k)) vals bins = Inr counted
     \<and> map binStart counted = map binStart bins
     \<and> map binEnd counted = map binEnd bins
     \<and> sum_list (map count counted) = sum_list (map count bins) + length vals"
proof (induction vals arbitrary: bins)
  case Nil
  then show ?case by simp
next
  case (Cons v rest)
  have mv: "mn \<le> v" using Cons.prems(1) by simp
  obtain j where j: "arrayIndex (d_min (d_floor (d_div (d_sub (Finite v) (Finite mn)) (Finite ww)))
                          (d_sub (Finite (of_int k)) (Finite 1))) = Some j" "int j < k"
    using binIndex_valid [OF mv ww k] by blast
  have jl: "j < length bins" using j(2) Cons.prems(2) by simp
  let ?bins = "bins[j := (bins ! j)\<lparr>count := count (bins ! j) + 1\<rparr>]"
  have step: "countLoop mn (Finite ww) (Finite (of_int k)) (v # rest) bins =
      countLoop mn (Finite ww) (Finite (of_int k)) rest ?bins"
    using j(1) jl by (simp add: Let_def)
  have len: "int (length ?bins) = k" using Cons.prems(2) by simp
  have mem: "\<And>u. u \<in> set rest \<Longrightarrow> mn \<le> u" using Cons.prems(1) by simp
  obtain counted where c: "countLoop mn (Finite ww) (Finite (of_int k)) rest ?bins = Inr counted"
    "map binStart counted = map binStart ?bins" "map binEnd counted = map binEnd ?bins"
    "sum_list (map count counted) = sum_list (map count ?bins) + length rest"
    using Cons.IH [OF mem len] by blast
  have s: "sum_list (map count ?bins) = Suc (sum_list (map count bins))"
    using jl by (rule count_update_sum)
  have f: "map binStart ?bins = map binStart bins" "map binEnd ?bins = map binEnd bins"
    using count_update_fields [OF jl] by simp_all
  show ?case
    unfolding step using c s f by simp
qed


lemma clamp_bins:
  assumes "z = PlusInfinity \<or> z = MinusInfinity \<or> (\<exists>j. z = Finite (of_int j))"
  shows "\<exists>k. d_max (Finite 20) (d_min (Finite 60) z) = Finite (of_int k) \<and> 20 \<le> k \<and> k \<le> 60"
proof -
  consider "z = PlusInfinity" | "z = MinusInfinity" | j where "z = Finite (of_int j)"
    using assms by blast
  then show ?thesis
  proof cases
    case 1
    have "d_max (Finite 20) (d_min (Finite 60) z) = Finite (of_int 60)" using 1 by simp
    then show ?thesis by (intro exI [of _ 60]) simp
  next
    case 2
    have "d_max (Finite 20) (d_min (Finite 60) z) = Finite (of_int 20)" using 2 by simp
    then show ?thesis by (intro exI [of _ 20]) simp
  next
    case 3
    have "d_max (Finite 20) (d_min (Finite 60) z) = Finite (of_int (max 20 (min 60 j)))"
      using 3 by (auto simp: max_def min_def)
    then show ?thesis by (intro exI [of _ "max 20 (min 60 j)"]) simp
  qed
qed

lemma d_ceil_cases:
  "d_ceil y = NotANumber \<or> d_ceil y = PlusInfinity \<or> d_ceil y = MinusInfinity
   \<or> (\<exists>j. d_ceil y = Finite (of_int j))"
  by (cases y) auto

lemma calculateOptimalBins_cases:
  "calculateOptimalBins powThird sortedData = NotANumber
   \<or> (\<exists>k. calculateOptimalBins powThird sortedData = Finite (of_int k) \<and> 20 \<le> k \<and> k \<le> 60)"
proof -
  define n where "n = length sortedData"
  define bw where "bw = d_div (d_mul (Finite 2)
      (d_sub (Finite (sortedData ! floorIndex n 0.75)) (Finite (sortedData ! floorIndex n 0.25))))
      powThird"
  define range where "range = d_sub (Finite (sortedData ! (n - 1))) (Finite (sortedData ! 0))"
  define z where "z = (if d_less (Finite 0) bw then d_ceil (d_div range bw) else Finite 30)"
  have r: "calculateOptimalBins powThird sortedData = d_max (Finite 20) (d_min (Finite 60) z)"
    by (simp add: calculateOptimalBins_def Let_def z_def range_def bw_def n_def)
  have "Finite 30 = Finite (of_int 30)" by simp
  then have "z = NotANumber \<or> z = PlusInfinity \<or> z = MinusInfinity \<or> (\<exists>j. z = Finite (of_int j))"
    unfolding z_def using d_ceil_cases [of "d_div range bw"] by (auto simp del: of_int_numeral)
  then consider "z = NotANumber"
    | "z = PlusInfinity \<or> z = MinusInfinity \<or> (\<exists>j. z = Finite (of_int j))" by blast
  then show ?thesis
  proof cases
    case 1
    then show ?thesis unfolding r by simp
  next
    case 2
    then show ?thesis unfolding r using clamp_bins by blast
  qed
qed

lemma binData_single:
  assumes ne: "data \<noteq> []" and eq: "Min (set data) = Max (set data)"
  shows "binData powThird data numBinsArg =
     Inr [\<lparr>binStart = Finite (Min (set data)), binEnd = Finite (Max (set data)),
           count = length data, midpoint = Finite (Min (set data)), percentage = Finite 100\<rparr>]"
proof -
  have a: "sort data ! 0 = Min (set data)" using ne by (rule sort_nth_0)
  have b: "sort data ! (length data - 1) = Max (set data)" using ne by (rule sort_nth_last)
  show ?thesis
    using ne eq by (simp add: binData_def Let_def a b del: One_nat_def)
qed

lemma binData_multi:
  fixes data :: "real list" and k :: int
  defines "mn \<equiv> Min (set data)" and "mx \<equiv> Max (set data)"
  assumes ne: "data \<noteq> []" and neq: "mn \<noteq> mx"
    and nb: "(case numBinsArg of None \<Rightarrow> calculateOptimalBins powThird (sort data)
               | Some j \<Rightarrow> Finite (of_int j)) = Finite (of_int k)"
    and lo: "1 \<le> k" and hi: "k \<le> 4294967295"
    and w: "d_div (d_sub (Finite mx) (Finite mn)) (Finite (of_int k)) = Finite ww"
    and ww: "0 < ww"
  shows "\<exists>bins. binData powThird data numBinsArg = Inr bins
           \<and> length bins = nat k
           \<and> sum_list (map count bins) = length data
           \<and> map binStart bins =
               map (\<lambda>i. d_add (Finite mn) (d_mul (Finite (real i)) (Finite ww))) [0..<nat k]
           \<and> map binEnd bins =
               map (\<lambda>i. d_add (Finite mn) (d_mul (Finite (real (Suc i))) (Finite ww))) [0..<nat k]"
proof -
  have a: "sort data ! 0 = mn" unfolding mn_def using ne by (rule sort_nth_0)
  have b: "sort data ! (length data - 1) = mx" unfolding mx_def using ne by (rule sort_nth_last)
  have k53: "k < 2 ^ 53" using hi by simp
  define bins0 where "bins0 = map (\<lambda>i. \<lparr>binStart = d_add (Finite mn) (d_mul (Finite (real i)) (Finite ww)),
       binEnd = d_add (Finite mn) (d_mul (d_add (Finite (real i)) (Finite 1)) (Finite ww)),
       count = 0,
       midpoint = d_add (Finite mn) (d_mul (d_add (Finite (real i)) (Finite (1 / 2))) (Finite ww))\<rparr>)
     [0..<nat k]"
  have na: "new_Array_double (Finite (of_int k)) = Inr (nat k)" using lo hi by simp
  have l0: "int (length bins0) = k" using lo by (simp add: bins0_def)
  have mem: "\<And>v. v \<in> set (sort data) \<Longrightarrow> mn \<le> v"
    unfolding mn_def by simp
  obtain counted where c: "countLoop mn (Finite ww) (Finite (of_int k)) (sort data) bins0 = Inr counted"
    "map binStart counted = map binStart bins0" "map binEnd counted = map binEnd bins0"
    "sum_list (map count counted) = sum_list (map count bins0) + length (sort data)"
    using countLoop_Inr [OF ww lo k53 mem l0] by blast
  have z: "sum_list (map count bins0) = 0"
    by (simp add: bins0_def comp_def)
  have s0: "map binStart bins0 =
      map (\<lambda>i. d_add (Finite mn) (d_mul (Finite (real i)) (Finite ww))) [0..<nat k]"
    by (simp add: bins0_def comp_def)
  have suc: "d_add (Finite (real i)) (Finite 1) = Finite (real (Suc i))" if "i < nat k" for i
  proof -
    have "Suc i < 2 ^ 53" using that hi by simp
    then have "toDouble (real (Suc i)) = Finite (real (Suc i))" by (rule toDouble_of_nat)
    then show ?thesis by (simp add: add.commute)
  qed
  have e0: "map binEnd bins0 =
      map (\<lambda>i. d_add (Finite mn) (d_mul (Finite (real (Suc i))) (Finite ww))) [0..<nat k]"
    unfolding bins0_def by (simp add: comp_def suc del: d_add.simps of_nat_Suc)
  define final where "final = map (\<lambda>b. \<lparr>binStart = binStart b, binEnd = binEnd b,
        count = count b, midpoint = midpoint b,
        percentage = d_mul (d_div (Finite (real (count b))) (Finite (real (length data))))
                       (Finite 100)\<rparr>) counted"
  have res: "binData powThird data numBinsArg = Inr final"
    using ne neq
    by (simp add: binData_def Let_def a b nb w na c(1) [unfolded bins0_def] final_def
        del: One_nat_def d_add.simps d_mul.simps d_div.simps new_Array_double.simps)
  have fs: "map binStart final = map binStart counted"
    by (simp add: final_def comp_def)
  have fe: "map binEnd final = map binEnd counted"
    by (simp add: final_def comp_def)
  have fc: "map count final = map count counted"
    by (simp add: final_def comp_def)
  have len: "length final = nat k"
    using arg_cong [OF fs, of length] arg_cong [OF c(2), of length] l0 by simp
  from res len fs fe fc c z s0 e0 show ?thesis by simp
qed

lemma d_div_NaN: "d_div x NotANumber = NotANumber"
  by (cases x) simp_all

lemma width_positive:
  assumes le: "mn \<le> mx" and k: "1 \<le> k"
    and w: "d_div (d_sub (Finite mx) (Finite mn)) (Finite (of_int k)) = Finite ww" and nz: "ww \<noteq> 0"
  shows "0 < ww"
proof -
  have num: "d_sub (Finite mx) (Finite mn) = toDouble (mx - mn)" by (simp add: d_sub_def)
  from toDouble_nonneg [of "mx - mn"] le
  consider "toDouble (mx - mn) = PlusInfinity" | r where "toDouble (mx - mn) = Finite r" "0 \<le> r"
    by auto
  then show ?thesis
  proof cases
    case 1
    then show ?thesis using w k unfolding num by (simp add: signedInfinity_def)
  next
    case 2
    have q: "toDouble (r / of_int k) = Finite ww" using w k 2(1) unfolding num by simp
    from toDouble_nonneg [of "r / of_int k"] 2(2) k
    have "toDouble (r / of_int k) = PlusInfinity
        \<or> (\<exists>c. toDouble (r / of_int k) = Finite c \<and> 0 \<le> c)" by simp
    then have "0 \<le> ww" unfolding q by simp
    then show ?thesis using nz by simp
  qed
qed

lemma binData_seven_bins:
  "map_sum id (binEnd \<circ> last) (binData powThird [0, 29] (Some 7)) =
     Inr (Finite (29 + 1 / 2 ^ 48))"
proof -
  let ?D = "[0, 29 :: real]"
  have st: "set ?D = {0, 29}" by auto
  have mn: "Min (set ?D) = 0" unfolding st by simp
  have mx: "Max (set ?D) = 29" unfolding st by simp
  have i29: "toDouble 29 = Finite 29" using toDouble_of_int [of 29] by simp
  have w: "toDouble (29 / 7) = Finite (of_int 4664442471205157 * 2 powi (2 - 52))"
    by (rule toDouble_eval) (simp_all add: power_int_minus)
  define ww :: real where "ww = of_int 4664442471205157 * 2 powi (2 - 52)"
  have wpos: "0 < ww" unfolding ww_def by (simp add: power_int_minus)
  have width: "d_div (d_sub (Finite (Max (set ?D))) (Finite (Min (set ?D)))) (Finite (of_int 7)) =
      Finite ww"
    unfolding mn mx ww_def by (simp add: d_sub_def i29 w)
  have arg: "(case Some 7 of None \<Rightarrow> calculateOptimalBins powThird (sort ?D)
               | Some j \<Rightarrow> Finite (of_int j)) = Finite (of_int 7)"
    by simp
  have neq: "Min (set ?D) \<noteq> Max (set ?D)" unfolding mn mx by simp
  obtain bins where b: "binData powThird ?D (Some 7) = Inr bins" "length bins = nat 7"
    "map binEnd bins =
       map (\<lambda>i. d_add (Finite (Min (set ?D))) (d_mul (Finite (real (Suc i))) (Finite ww)))
         [0..<nat 7]"
    using binData_multi [OF _ neq arg _ _ width wpos] by auto
  have l: "length bins = 7" using b(2) by simp
  then have ne: "bins \<noteq> []" by auto
  have "binEnd (last bins) = binEnd (bins ! 6)" using l ne by (simp add: last_conv_nth)
  also have "\<dots> = map binEnd bins ! 6" using l by simp
  also have "\<dots> = d_add (Finite 0) (d_mul (Finite (real (Suc 6))) (Finite ww))"
    unfolding b(3) mn by (simp del: d_add.simps d_mul.simps of_nat_Suc upt_Suc)
  also have "\<dots> = d_add (Finite 0) (toDouble (7 * ww))" by simp
  finally have e: "binEnd (last bins) = d_add (Finite 0) (toDouble (7 * ww))" .
  have p: "toDouble (7 * ww) = Finite (of_int 8162774324609025 * 2 powi (4 - 52))"
    unfolding ww_def by (rule toDouble_eval) (simp_all add: power_int_minus)
  have a: "toDouble (of_int 8162774324609025 * 2 powi (4 - 52)) =
      Finite (of_int 8162774324609025 * 2 powi (4 - 52))"
    by (rule toDouble_eval) (simp_all add: power_int_minus)
  have "binEnd (last bins) = Finite (of_int 8162774324609025 * 2 powi (4 - 52))"
    unfolding e p using a by simp
  also have "real_of_int 8162774324609025 * 2 powi (4 - 52) = 29 + 1 / 2 ^ 48"
    by (simp add: power_int_minus)
  finally have "binEnd (last bins) = Finite (29 + 1 / 2 ^ 48)" .
  then show ?thesis using b(1) by simp
qed

lemma binData_default_bins:
  "map_sum id (binEnd \<circ> last) (binData (Finite 2) [0, 0, 0, 0, 0, 0, 21, 1024] None) =
     Inr (Finite (1024 - 1 / 2 ^ 43))
   \<and> Max (set [0, 0, 0, 0, 0, 0, 21, 1024 :: real]) = 1024"
proof -
  let ?D = "[0, 0, 0, 0, 0, 0, 21, 1024 :: real]"
  have srt: "sort ?D = ?D" by simp
  have st: "set ?D = {0, 21, 1024}" by auto
  have mn: "Min (set ?D) = 0" unfolding st by simp
  have mx: "Max (set ?D) = 1024" unfolding st by simp
  have i21: "toDouble 21 = Finite 21" using toDouble_of_int [of 21] by simp
  have i42: "toDouble 42 = Finite 42" using toDouble_of_int [of 42] by simp
  have i1024: "toDouble 1024 = Finite 1024" using toDouble_of_int [of 1024] by simp
  have q: "toDouble (1024 / 21) = Finite (of_int 6862628003612184 * 2 powi (5 - 52))"
    by (rule toDouble_eval) (simp_all add: power_int_minus)
  have q': "toDouble (1024 / 21) = Finite (6862628003612184 / 140737488355328)"
    unfolding q by (simp add: power_int_minus)
  have c: "\<lceil>6862628003612184 / 140737488355328 :: real\<rceil> = 49"
    by (rule ceiling_unique) simp_all
  have len: "length ?D = 8" by simp
  have f1: "floorIndex (length ?D) 0.25 = 2" unfolding len by (simp add: floorIndex_def)
  have f2: "floorIndex (length ?D) 0.75 = 6" unfolding len by (simp add: floorIndex_def)
  have q1: "?D ! floorIndex (length ?D) 0.25 = 0" unfolding f1 by simp
  have q3: "?D ! floorIndex (length ?D) 0.75 = 21" unfolding f2 by simp
  have r0: "?D ! 0 = 0" by simp
  have r1: "?D ! (length ?D - 1) = 1024" by simp
  have nb: "calculateOptimalBins (Finite 2) ?D = Finite 49"
    unfolding calculateOptimalBins_def Let_def q1 q3 r0 r1
    by (simp add: d_sub_def i21 i42 i1024 q' c)
  have w: "toDouble (1024 / 49) = Finite (of_int 5882252574524729 * 2 powi (4 - 52))"
    by (rule toDouble_eval) (simp_all add: power_int_minus)
  define ww :: real where "ww = of_int 5882252574524729 * 2 powi (4 - 52)"
  have wpos: "0 < ww" unfolding ww_def by (simp add: power_int_minus)
  have width: "d_div (d_sub (Finite (Max (set ?D))) (Finite (Min (set ?D)))) (Finite (of_int 49)) =
      Finite ww"
    unfolding mn mx ww_def by (simp add: d_sub_def i1024 w)
  have arg: "(case None of None \<Rightarrow> calculateOptimalBins (Finite 2) (sort ?D)
               | Some j \<Rightarrow> Finite (of_int j)) = Finite (of_int 49)"
    unfolding srt using nb by simp
  have neq: "Min (set ?D) \<noteq> Max (set ?D)" unfolding mn mx by simp
  obtain bins where b: "binData (Finite 2) ?D None = Inr bins" "length bins = nat 49"
    "map binEnd bins =
       map (\<lambda>i. d_add (Finite (Min (set ?D))) (d_mul (Finite (real (Suc i))) (Finite ww)))
         [0..<nat 49]"
    using binData_multi [OF _ neq arg _ _ width wpos] by auto
  have l: "length bins = 49" using b(2) by simp
  then have ne: "bins \<noteq> []" by auto
  have "binEnd (last bins) = binEnd (bins ! 48)" using l ne by (simp add: last_conv_nth)
  also have "\<dots> = map binEnd bins ! 48" using l by simp
  also have "\<dots> = d_add (Finite 0) (d_mul (Finite (real (Suc 48))) (Finite ww))"
    unfolding b(3) mn by (simp del: d_add.simps d_mul.simps of_nat_Suc upt_Suc)
  also have "\<dots> = d_add (Finite 0) (toDouble (49 * ww))" by simp
  finally have e: "binEnd (last bins) = d_add (Finite 0) (toDouble (49 * ww))" .
  have p: "toDouble (49 * ww) = Finite (of_int 9007199254740991 * 2 powi (9 - 52))"
    unfolding ww_def by (rule toDouble_eval) (simp_all add: power_int_minus)
  have a: "toDouble (of_int 9007199254740991 * 2 powi (9 - 52)) =
      Finite (of_int 9007199254740991 * 2 powi (9 - 52))"
    by (rule toDouble_eval) (simp_all add: power_int_minus)
  have "binEnd (last bins) = Finite (of_int 9007199254740991 * 2 powi (9 - 52))"
    unfolding e p using a by simp
  also have "real_of_int 9007199254740991 * 2 powi (9 - 52) = 1024 - 1 / 2 ^ 43"
    by (simp add: power_int_minus)
  finally have "binEnd (last bins) = Finite (1024 - 1 / 2 ^ 43)" .
  then show ?thesis using b(1) mx by simp
qed


lemma binData_underflow:
  "binData (Finite 2) [0, 0, 0, 0, 0, 0, 0, 2 powi (- 1074)] None = Inl TypeError"
proof -
  define t :: real where "t = 2 powi (- 1074)"
  let ?D = "[0, 0, 0, 0, 0, 0, 0, t]"
  have tpos: "0 < t" unfolding t_def by (rule powi_pos)
  have srt: "sort ?D = ?D" using tpos by simp
  have len: "length ?D = 8" by simp
  have f1: "floorIndex (length ?D) 0.25 = 2" unfolding len by (simp add: floorIndex_def)
  have f2: "floorIndex (length ?D) 0.75 = 6" unfolding len by (simp add: floorIndex_def)
  have q1: "?D ! floorIndex (length ?D) 0.25 = 0" unfolding f1 by simp
  have q3: "?D ! floorIndex (length ?D) 0.75 = 0" unfolding f2 by simp
  have r0: "?D ! 0 = 0" by simp
  have r1: "?D ! (length ?D - 1) = t" by simp
  have small: "\<bar>t\<bar> < 2 powi (- 1022)"
    unfolding t_def by (simp add: power_int_strict_increasing)
  have rt: "toDouble t = Finite (of_int 1 * 2 powi (- 1074))"
    using tpos small by (intro toDouble_eval_subnormal) (simp_all add: t_def)
  then have rt': "toDouble t = Finite t" by (simp add: t_def)
  have nb: "calculateOptimalBins (Finite 2) ?D = Finite 30"
    unfolding calculateOptimalBins_def Let_def q1 q3 r0 r1
    by (simp add: d_sub_def toDouble_zero)
  have "\<bar>t / 30\<bar> < 2 powi (- 1022)" using small tpos by simp
  then have "toDouble (t / 30) = Finite (of_int 0 * 2 powi (- 1074))"
    using tpos by (intro toDouble_eval_subnormal) (simp_all add: t_def)
  then have w: "toDouble (t / 30) = Finite 0" by simp
  have width: "d_div (d_sub (Finite t) (Finite 0)) (Finite 30) = Finite 0"
    by (simp add: d_sub_def rt' w)
  have first: "d_div (d_sub (Finite 0) (Finite 0)) (Finite 0) = NotANumber"
    by (simp add: d_sub_def toDouble_zero)
  have "binData (Finite 2) ?D None = Inl TypeError"
    unfolding binData_def Let_def srt r0 r1 option.case nb width
    using tpos
    by (simp add: countLoop_NaN [OF first] del: countLoop.simps upt.simps)
  then show ?thesis by (simp add: t_def)
qed

text \<open>
  The bin width is a finite non-zero double whenever the range of the data lies between
  \<open>2^-1000\<close> and \<open>2^1000\<close>: powers of two are doubles, rounding is monotone, and the
  number of bins is between 1 and \<open>2^32 - 1\<close>.
\<close>

lemma toDouble_power_of_two:
  assumes "- 1022 \<le> e" and "e \<le> 1022"
  shows "toDouble (2 powi e) = Finite (2 powi e)"
proof -
  have d: "(2 :: real) powi e / 2 powi (e - 52) = 2 powi 52"
    using power_int_diff [of "2 :: real" e "e - 52"] by simp
  have p: "(2 :: real) powi 52 = of_int (2 ^ 52)" by (simp add: power_int_def)
  have lo: "2 powi e \<le> \<bar>(2 :: real) powi e\<bar>" by simp
  have "(2 :: real) powi e < 2 powi (e + 1)" by (intro power_int_strict_increasing) simp_all
  then have hi: "\<bar>(2 :: real) powi e\<bar> < 2 powi (e + 1)" by simp
  have m: "\<bar>(2 :: real) powi e / 2 powi (e - 52) - of_int (2 ^ 52)\<bar> < 1 / 2"
    unfolding d p by simp
  have "toDouble (2 powi e) = Finite (of_int (2 ^ 52) * 2 powi (e - 52))"
    using lo hi assms m by (rule toDouble_eval)
  also have "real_of_int (2 ^ 52) * 2 powi (e - 52) = 2 powi e"
    using d p powi_pos [of "e - 52"] by (simp add: field_simps)
  finally show ?thesis .
qed

lemma toDouble_small_power_of_two: "toDouble (2 powi (- 1032)) = Finite (2 powi (- 1032))"
proof -
  have d: "(2 :: real) powi (- 1032) / 2 powi (- 1074) = 2 powi 42"
    using power_int_diff [of "2 :: real" "- 1032" "- 1074"] by simp
  have p: "(2 :: real) powi 42 = of_int (2 ^ 42)" by (simp add: power_int_def)
  have nz: "(2 :: real) powi (- 1032) \<noteq> 0" using powi_pos [of "- 1032"] by simp
  have "(2 :: real) powi (- 1032) < 2 powi (- 1022)" by (intro power_int_strict_increasing) simp_all
  then have hi: "\<bar>(2 :: real) powi (- 1032)\<bar> < 2 powi (- 1022)" by simp
  have m: "\<bar>(2 :: real) powi (- 1032) / 2 powi (- 1074) - of_int (2 ^ 42)\<bar> < 1 / 2"
    unfolding d p by simp
  have "toDouble (2 powi (- 1032)) = Finite (of_int (2 ^ 42) * 2 powi (- 1074))"
    using nz hi m by (rule toDouble_eval_subnormal)
  also have "real_of_int (2 ^ 42) * 2 powi (- 1074) = 2 powi (- 1032)"
    using d p powi_pos [of "- 1074"] by (simp add: field_simps)
  finally show ?thesis .
qed

lemma toDouble_between:
  assumes lo: "toDouble a = Finite a" and hi: "toDouble b = Finite b"
    and ax: "a \<le> x" and xb: "x \<le> b"
  shows "\<exists>r. toDouble x = Finite r \<and> a \<le> r \<and> r \<le> b"
proof -
  have l: "d_le (Finite a) (toDouble x)" using toDouble_mono [OF ax] lo by simp
  have h: "d_le (toDouble x) (Finite b)" using toDouble_mono [OF xb] hi by simp
  show ?thesis using l h by (cases "toDouble x") simp_all
qed

lemma binWidth_in_range:
  assumes lo: "2 powi (- 1000) \<le> mx - mn" and hi: "mx - mn \<le> 2 powi 1000"
    and k: "1 \<le> k" "k \<le> 4294967295"
  shows "\<exists>ww. d_div (d_sub (Finite mx) (Finite mn)) (Finite (of_int k)) = Finite ww \<and> ww \<noteq> 0"
proof -
  have num: "d_sub (Finite mx) (Finite mn) = toDouble (mx - mn)" by (simp add: d_sub_def)
  obtain r where r: "toDouble (mx - mn) = Finite r" "2 powi (- 1000) \<le> r" "r \<le> 2 powi 1000"
    using toDouble_between [OF toDouble_power_of_two toDouble_power_of_two lo hi] by auto
  have kr: "1 \<le> real_of_int k" "real_of_int k \<le> 2 powi 32"
    using k by simp_all
  have kpos: "0 < real_of_int k" using k by simp
  have rpos: "0 < r" using r(2) powi_pos [of "- 1000"] by linarith
  have "(2 :: real) powi (- 1032) * 2 powi 32 = 2 powi (- 1000)"
    using power_int_add [of "2 :: real" "- 1032" 32] by simp
  then have "2 powi (- 1032) * real_of_int k \<le> r"
    using r(2) kr(2) powi_pos [of "- 1032"]
    by (smt (verit, best) mult_left_mono)
  then have a: "2 powi (- 1032) \<le> r / real_of_int k" using kpos by (simp add: pos_le_divide_eq)
  have "r / real_of_int k \<le> r" using kr(1) rpos by (simp add: pos_divide_le_eq)
  then have b: "r / real_of_int k \<le> 2 powi 1000" using r(3) by linarith
  obtain ww where ww: "toDouble (r / real_of_int k) = Finite ww" "2 powi (- 1032) \<le> ww"
    using toDouble_between [OF toDouble_small_power_of_two toDouble_power_of_two a b] by auto
  have "0 < ww" using ww(2) powi_pos [of "- 1032"] by linarith
  moreover have "d_div (d_sub (Finite mx) (Finite mn)) (Finite (of_int k)) = Finite ww"
    unfolding num r(1) using kpos ww(1) by simp
  ultimately show ?thesis by auto
qed


lemma calculateOptimalBins_finite_range:
  assumes "d_sub (Finite (sortedData ! (length sortedData - 1))) (Finite (sortedData ! 0)) = Finite r"
  shows "\<exists>k. calculateOptimalBins powThird sortedData = Finite (of_int k) \<and> 20 \<le> k \<and> k \<le> 60"
proof -
  define n where "n = length sortedData"
  define bw where "bw = d_div (d_mul (Finite 2)
      (d_sub (Finite (sortedData ! floorIndex n 0.75)) (Finite (sortedData ! floorIndex n 0.25))))
      powThird"
  define z where "z = (if d_less (Finite 0) bw then d_ceil (d_div (Finite r) bw) else Finite 30)"
  have c: "calculateOptimalBins powThird sortedData = d_max (Finite 20) (d_min (Finite 60) z)"
    using assms by (simp add: calculateOptimalBins_def Let_def z_def bw_def n_def)
  have "z \<noteq> NotANumber"
  proof (cases "d_less (Finite 0) bw")
    case False
    then show ?thesis by (simp add: z_def)
  next
    case True
    then consider b where "bw = Finite b" "0 < b" | "bw = PlusInfinity"
      by (cases bw) simp_all
    then show ?thesis
    proof cases
      case 1
      have "d_div (Finite r) bw = toDouble (r / b)" using 1 by simp
      then show ?thesis using True toDouble_not_NaN [of "r / b"]
        by (cases "toDouble (r / b)") (simp_all add: z_def)
    next
      case 2
      then show ?thesis using True by (simp add: z_def)
    qed
  qed
  moreover have "d_max (Finite 20) (d_min (Finite 60) z) = NotANumber \<Longrightarrow> z = NotANumber"
    by (cases z) (simp_all split: if_splits)
  ultimately have "calculateOptimalBins powThird sortedData \<noteq> NotANumber" unfolding c by blast
  then show ?thesis using calculateOptimalBins_cases [of powThird sortedData] by blast
qed

lemma binWidth_finite_nonzero:
  fixes data :: "real list" and numBinsArg :: "int option" and powThird :: double
  defines "mn \<equiv> Min (set data)" and "mx \<equiv> Max (set data)"
  defines "numBins \<equiv> (case numBinsArg of
                         None \<Rightarrow> calculateOptimalBins powThird (sort data)
                       | Some j \<Rightarrow> Finite (of_int j))"
  assumes ne: "data \<noteq> []"
    and arg: "case numBinsArg of None \<Rightarrow> True | Some j \<Rightarrow> 1 \<le> j \<and> j \<le> 4294967295"
    and lo: "2 powi (- 1000) \<le> mx - mn" and hi: "mx - mn \<le> 2 powi 1000"
  shows "\<exists>ww. d_div (d_sub (Finite mx) (Finite mn)) numBins = Finite ww \<and> ww \<noteq> 0"
proof -
  have "\<exists>k. numBins = Finite (of_int k) \<and> 1 \<le> k \<and> k \<le> 4294967295"
  proof (cases numBinsArg)
    case None
    have a: "sort data ! 0 = mn" unfolding mn_def using ne by (rule sort_nth_0)
    have b: "sort data ! (length (sort data) - 1) = mx"
      unfolding mx_def using sort_nth_last [OF ne] by simp
    obtain r where "toDouble (mx - mn) = Finite r"
      using toDouble_between [OF toDouble_power_of_two toDouble_power_of_two lo hi] by auto
    then have "d_sub (Finite (sort data ! (length (sort data) - 1))) (Finite (sort data ! 0)) = Finite r"
      unfolding a b by (simp add: d_sub_def)
    then obtain k where "calculateOptimalBins powThird (sort data) = Finite (of_int k)"
      "20 \<le> k" "k \<le> 60"
      using calculateOptimalBins_finite_range by blast
    then show ?thesis using None by (intro exI [of _ k]) (simp add: numBins_def)
  next
    case (Some j)
    then show ?thesis using arg by (intro exI [of _ j]) (simp add: numBins_def)
  qed
  then obtain k where k: "numBins = Finite (of_int k)" "1 \<le> k" "k \<le> 4294967295" by blast
  show ?thesis unfolding k(1) using lo hi k(2,3) by (rule binWidth_in_range)
qed

section \<open>Properties of the valuators\<close>

lemma stockLoop_zero: "stockLoop 0 rets (0, 0) = (0, 0)"
  by (induction rets) simp_all

text \<open>
  C4: with allocation fraction 0 the stock scenario's final value is the mortgage
  scenario's value, the mortgage-savings value of the full monthly surplus over the same
  horizon and rate, whatever the return path.
\<close>

theorem allocation_zero_stock_equals_mortgage:
  "calculateStockScenario monthlyAmount 0 rets rate years =
     calculateMortgageSavingsValue monthlyAmount years rate
   \<and> calculateStockScenario monthlyAmount 0 rets rate years =
     calculateMortgageScenario monthlyAmount years rate"
  by (simp add: calculateStockScenario_def calculateMortgageScenario_def stockLoop_zero)

text \<open>
  C6: at annual rate 0 the mortgage-savings value is the monthly payment times the number
  of months, \<open>P * (y * 12)\<close>; 10,000 a month over 10 years gives 1,200,000.
\<close>

theorem mortgage_savings_rate_zero:
  "calculateMortgageSavingsValue P y 0 = P * (of_int y * 12)
   \<and> calculateMortgageSavingsValue 10000 10 0 = 1200000"
  by (simp add: calculateMortgageSavingsValue_def)

text \<open>
  C10: the step-up method (gains times 1.72 times 0.22) and the direct method (gains
  times 0.3784) give the same tax for every total value and cost basis.
\<close>

theorem step_up_equals_direct:
  "calculateCapitalGainsTaxStepUp totalValue costBasis =
     calculateCapitalGainsTax totalValue costBasis"
  by (simp add: calculateCapitalGainsTaxStepUp_def calculateCapitalGainsTax_def
      STEP_UP_FACTOR_def FLAT_RATE_def CAPITAL_GAINS_RATE_def)

text \<open>
  C9: in \<open>calculateStockScenario\<close> and \<open>calculateStockScenarioWithPath\<close> the yearly
  contribution-and-return loop takes one step per element of the return path, whatever the
  \<open>years\<close> argument: the total invested is the yearly contribution times the length of
  the path, the stock part of the result does not depend on \<open>years\<close>, and a path of
  \<open>k\<close> zero returns accumulates exactly \<open>k\<close> contributions. The mortgage-savings term
  is computed over \<open>years\<close>. The variant with the path returns the same final value,
  and its yearly values are defined exactly at the indices \<open>0\<close> to the length of the
  path, in an array of \<open>max (years + 1) (length + 1)\<close> slots; so the two horizons agree
  only when the path has \<open>years\<close> elements.
\<close>

theorem stock_steps_follow_path_length:
  "snd (stockLoop (m * a) rets (0, 0)) = m * a * 12 * real (length rets)
   \<and> calculateStockScenario m a rets rate y1
         - calculateMortgageSavingsValue (m * (1 - a)) y1 rate
       = calculateStockScenario m a rets rate y2
         - calculateMortgageSavingsValue (m * (1 - a)) y2 rate
   \<and> calculateStockScenario m a (replicate k 0) rate years
       = m * a * 12 * real k + calculateMortgageSavingsValue (m * (1 - a)) years rate
   \<and> (- 1 \<le> years \<and> years < 4294967295 \<longrightarrow>
        (\<exists>yv. calculateStockScenarioWithPath m a rets rate years =
                 Inr (calculateStockScenario m a rets rate years, yv)
           \<and> length yv = max (nat (years + 1)) (length rets + 1)
           \<and> (\<forall>j < length yv. yv ! j \<noteq> None \<longleftrightarrow> j \<le> length rets)))"
proof -
  have c1: "snd (stockLoop (m * a) rets (0, 0)) = m * a * 12 * real (length rets)"
    by (simp add: stockLoop_invested)
  have c2: "calculateStockScenario m a rets rate y1
         - calculateMortgageSavingsValue (m * (1 - a)) y1 rate
       = calculateStockScenario m a rets rate y2
         - calculateMortgageSavingsValue (m * (1 - a)) y2 rate"
    by (simp add: calculateStockScenario_def Let_def split: prod.splits)
  have c3: "calculateStockScenario m a (replicate k 0) rate years
       = m * a * 12 * real k + calculateMortgageSavingsValue (m * (1 - a)) years rate"
    by (simp add: calculateStockScenario_def stockLoop_no_returns)
  have c4: "\<exists>yv. calculateStockScenarioWithPath m a rets rate years =
                 Inr (calculateStockScenario m a rets rate years, yv)
           \<and> length yv = max (nat (years + 1)) (length rets + 1)
           \<and> (\<forall>j < length yv. yv ! j \<noteq> None \<longleftrightarrow> j \<le> length rets)"
    if "- 1 \<le> years" "years < 4294967295"
    using that by (rule calculateStockScenarioWithPath_Inr)
  from c1 c2 c3 c4 show ?thesis by blast
qed

theorem stock_steps_follow_path_length_witness:
  "(- 1 :: int) \<le> 2 \<and> (2 :: int) < 4294967295
   \<and> (\<exists>yv. calculateStockScenarioWithPath 1000 (1 / 2) [0] 0 2 = Inr (18000, yv)
         \<and> length yv = 3 \<and> yv ! 0 \<noteq> None \<and> yv ! 1 \<noteq> None \<and> yv ! 2 = None)
   \<and> calculateStockScenario 1000 (1 / 2) [0] 0 1 = 12000
   \<and> calculateStockScenario 1000 (1 / 2) [0, 0] 0 2 = 24000"
proof -
  have v: "calculateStockScenario 1000 (1 / 2) [0] 0 2 = 18000"
    "calculateStockScenario 1000 (1 / 2) [0] 0 1 = 12000"
    "calculateStockScenario 1000 (1 / 2) [0, 0] 0 2 = 24000"
    by (simp_all add: calculateStockScenario_def calculateMortgageSavingsValue_def Let_def)
  obtain yv where yv: "calculateStockScenarioWithPath 1000 (1 / 2) [0] 0 2 =
      Inr (calculateStockScenario 1000 (1 / 2) [0] 0 2, yv)"
    "length yv = max (nat (2 + 1)) (length [0 :: real] + 1)"
    "\<forall>j < length yv. yv ! j \<noteq> None \<longleftrightarrow> j \<le> length [0 :: real]"
    using stock_steps_follow_path_length [of 1000 "1 / 2" "[0]" 0 2 2 0 2] by auto
  have l: "length yv = 3" using yv(2) by simp
  have d0: "yv ! 0 \<noteq> None" using yv(3) l by simp
  have d1: "yv ! 1 \<noteq> None" using yv(3) l by simp
  have "(2 :: nat) < length yv" using l by simp
  with yv(3) have "yv ! 2 \<noteq> None \<longleftrightarrow> (2 :: nat) \<le> length [0 :: real]" by blast
  then have d2: "yv ! 2 = None" by simp
  from yv(1) l v d0 d1 d2 show ?thesis by auto
qed

section \<open>Properties of the simulation engine\<close>

text \<open>
  C2: for a trial count \<open>N\<close> and a horizon that are valid array lengths (in particular
  for all valid parameters), \<open>runSimulation\<close> returns a stock collection and a
  mortgage collection of length exactly \<open>N\<close>, aligned by trial: entry \<open>i\<close> of the
  stock collection is the stock scenario valued on the return path drawn for trial \<open>i\<close>
  (the path the generator yields after the \<open>i\<close> paths before it), and entry \<open>i\<close> of
  the mortgage collection is the mortgage scenario of the same parameters.
\<close>

theorem runSimulation_lengths_aligned:
  assumes "returns e \<noteq> []" and "\<forall>k. 0 \<le> rnd k \<and> rnd k < 1"
    and "0 \<le> timeHorizon ps" and "timeHorizon ps \<le> 4294967295"
    and "0 \<le> trialCount ps" and "trialCount ps \<le> 4294967295"
  shows "\<exists>res. runSimulation e rnd ps s = Inr res
           \<and> length (stock res) = nat (trialCount ps)
           \<and> length (mortgage res) = nat (trialCount ps)
           \<and> (\<forall>i < nat (trialCount ps). \<exists>rets s'.
                 generateReturnPath e rnd (timeHorizon ps) (s + i * nat (timeHorizon ps)) =
                   Inr (rets, s')
                 \<and> stock res ! i =
                     calculateStockScenario (monthlyInvestment ps) (stockAllocation ps / 100) rets
                       (mortgageRate ps) (timeHorizon ps)
                 \<and> mortgage res ! i =
                     calculateMortgageScenario (monthlyInvestment ps) (timeHorizon ps)
                       (mortgageRate ps))"
proof -
  have na: "new_Array (trialCount ps) = Inr (nat (trialCount ps))"
    using assms(5,6) by (rule new_Array_Inr)
  note loop = simulationLoop_Inr [OF assms(3,4), of e rnd "nat (trialCount ps)" s]
  show ?thesis
    by (simp add: runSimulation_def na loop generateReturnPath_Inr [OF assms(3,4)] del: upt_Suc)
qed

theorem runSimulation_lengths_aligned_witness:
  "\<exists>res. runSimulation \<lparr>returns = [1 / 10], meanReturn = 1 / 10, stdDev = 0\<rparr> (constantDraws 0)
            \<lparr>monthlyInvestment = 1000, timeHorizon = 1, mortgageRate = 0, stockAllocation = 50,
              numSimulations = Some 2\<rparr> 0 = Inr res
      \<and> length (stock res) = 2 \<and> length (mortgage res) = 2"
  using runSimulation_lengths_aligned [of "\<lparr>returns = [1 / 10], meanReturn = 1 / 10, stdDev = 0\<rparr>"
      "constantDraws 0"
      "\<lparr>monthlyInvestment = 1000, timeHorizon = 1, mortgageRate = 0, stockAllocation = 50,
              numSimulations = Some 2\<rparr>" 0]
  by (auto simp: constantDraws_def trialCount_def)




section \<open>Properties of the statistics\<close>

text \<open>
  C7: \<open>calculateOutperformanceProbability\<close> fails, with the length-mismatch error and
  no other, exactly when the two arrays differ in length. For equal lengths it returns the
  number of indices \<open>i\<close> with \<open>a[i] > b[i]\<close> divided by the length (for two empty
  arrays that quotient is JavaScript's \<open>0 / 0\<close>, NaN). The comparison is strict: a tie
  counts for neither side, so an array never outperforms itself.
\<close>

theorem outperformance_probability_spec:
  "(calculateOutperformanceProbability a b = Inl LengthMismatch \<longleftrightarrow> length a \<noteq> length b)
   \<and> (\<forall>e. calculateOutperformanceProbability a b = Inl e \<longrightarrow> e = LengthMismatch)
   \<and> (length a = length b \<longrightarrow> a \<noteq> [] \<longrightarrow>
        calculateOutperformanceProbability a b =
          Inr (Num (real (card {i. i < length a \<and> a ! i > b ! i}) / real (length a))))
   \<and> (a = [] \<longrightarrow> b = [] \<longrightarrow> calculateOutperformanceProbability a b = Inr NaN)
   \<and> (a \<noteq> [] \<longrightarrow> calculateOutperformanceProbability a a = Inr (Num 0))"
proof -
  have self: "fold (\<lambda>i wins. wins) xs w = w" for xs :: "nat list" and w :: nat
    by (induction xs) simp_all
  have c1: "calculateOutperformanceProbability a b = Inl LengthMismatch \<longleftrightarrow> length a \<noteq> length b"
    by (simp add: calculateOutperformanceProbability_def)
  have c2: "\<forall>e. calculateOutperformanceProbability a b = Inl e \<longrightarrow> e = LengthMismatch"
    by (auto simp: calculateOutperformanceProbability_def split: if_splits)
  have c3: "length a = length b \<longrightarrow> a \<noteq> [] \<longrightarrow>
        calculateOutperformanceProbability a b =
          Inr (Num (real (card {i. i < length a \<and> a ! i > b ! i}) / real (length a)))"
    unfolding calculateOutperformanceProbability_def Let_def wins_fold_card by simp
  have c4: "a = [] \<longrightarrow> b = [] \<longrightarrow> calculateOutperformanceProbability a b = Inr NaN"
    by (simp add: calculateOutperformanceProbability_def)
  have c5: "a \<noteq> [] \<longrightarrow> calculateOutperformanceProbability a a = Inr (Num 0)"
    by (simp add: calculateOutperformanceProbability_def self)
  from c1 c2 c3 c4 c5 show ?thesis by blast
qed

theorem outperformance_probability_spec_witness:
  "length [3, 1, 2 :: real] = length [1, 1, 5 :: real] \<and> [3, 1, 2 :: real] \<noteq> []
   \<and> calculateOutperformanceProbability [3, 1, 2] [1, 1, 5] = Inr (Num (1 / 3))
   \<and> calculateOutperformanceProbability [3, 1] [1, 1, 5] = Inl LengthMismatch"
proof -
  have "{i. i < length [3, 1, 2 :: real] \<and> [3, 1, 2 :: real] ! i > [1, 1, 5] ! i} = {0}"
    by (auto simp: less_Suc_eq numeral_3_eq_3)
  then show ?thesis
    using outperformance_probability_spec [of "[3, 1, 2]" "[1, 1, 5]"]
      outperformance_probability_spec [of "[3, 1]" "[1, 1, 5]"]
    by simp
qed



text \<open>
  The histogram module has a summary function of its own, \<open>calculateStatistics\<close>, the one
  the simulation hook calls. It returns \<open>null\<close> for an empty array too, but its object
  differs from the summary record: it has no count, a property p50, and as median the
  nearest-rank p50 instead of the interpolated median.
\<close>

lemma calculateStatistics_record:
  fixes data :: "real list"
  defines "n \<equiv> length data"
  defines "m \<equiv> sum_list data / real n"
  shows "calculateStatistics [] = None
   \<and> (data \<noteq> [] \<longrightarrow>
        (\<exists>obj. calculateStatistics data = Some obj
           \<and> map fst obj = [''mean'', ''median'', ''stdDev'', ''min'', ''max'',
                            ''p5'', ''p25'', ''p50'', ''p75'', ''p95'']
           \<and> js_prop obj ''mean'' = Some m
           \<and> js_prop obj ''median'' = Some (sort data ! (n div 2))
           \<and> js_prop obj ''stdDev'' = Some (sqrt (sum_list (map (\<lambda>v. (v - m) ^ 2) data) / real n))
           \<and> js_prop obj ''min'' = Some (Min (set data))
           \<and> js_prop obj ''max'' = Some (Max (set data))
           \<and> js_prop obj ''p5'' = Some (sort data ! floorIndex n 0.05)
           \<and> js_prop obj ''p25'' = Some (sort data ! floorIndex n 0.25)
           \<and> js_prop obj ''p50'' = Some (sort data ! (n div 2))
           \<and> js_prop obj ''p75'' = Some (sort data ! floorIndex n 0.75)
           \<and> js_prop obj ''p95'' = Some (sort data ! floorIndex n 0.95)))"
proof -
  have e: "calculateStatistics [] = None"
    by (simp add: calculateStatistics_def)
  have r: "\<exists>obj. calculateStatistics data = Some obj
           \<and> map fst obj = [''mean'', ''median'', ''stdDev'', ''min'', ''max'',
                            ''p5'', ''p25'', ''p50'', ''p75'', ''p95'']
           \<and> js_prop obj ''mean'' = Some m
           \<and> js_prop obj ''median'' = Some (sort data ! (n div 2))
           \<and> js_prop obj ''stdDev'' = Some (sqrt (sum_list (map (\<lambda>v. (v - m) ^ 2) data) / real n))
           \<and> js_prop obj ''min'' = Some (Min (set data))
           \<and> js_prop obj ''max'' = Some (Max (set data))
           \<and> js_prop obj ''p5'' = Some (sort data ! floorIndex n 0.05)
           \<and> js_prop obj ''p25'' = Some (sort data ! floorIndex n 0.25)
           \<and> js_prop obj ''p50'' = Some (sort data ! (n div 2))
           \<and> js_prop obj ''p75'' = Some (sort data ! floorIndex n 0.75)
           \<and> js_prop obj ''p95'' = Some (sort data ! floorIndex n 0.95)" if ne: "data \<noteq> []"
  proof -
    have pos: "0 < length data" using ne by simp
    have g0: "js_get (sort data) 0 = Some (Min (set data))"
      using ne pos by (simp add: js_get_def sort_nth_0)
    have g1: "js_get (sort data) (length data - 1) = Some (Max (set data))"
      using sort_nth_last [OF ne] pos by (simp add: js_get_def)
    have h: "js_get (sort data) (length data div 2) = Some (sort data ! (length data div 2))"
      using pos by (simp add: js_get_def)
    show ?thesis
      using pos g0 g1 h
      by (simp add: calculateStatistics_def calculatePercentiles_def Let_def js_prop_def
          foldl_plus_sum_list js_get_sort floorIndex_half n_def m_def)
  qed
  from e r show ?thesis by blast
qed

lemma calculateStatistics_no_count:
  "\<not> (\<forall>data :: real list. data \<noteq> [] \<longrightarrow>
        (\<exists>obj. calculateStatistics data = Some obj
           \<and> set [''count'', ''mean'', ''median'', ''stdDev'', ''min'', ''max'',
                   ''p5'', ''p25'', ''p75'', ''p95''] \<subseteq> set (map fst obj)))"
proof
  assume "\<forall>data :: real list. data \<noteq> [] \<longrightarrow>
        (\<exists>obj. calculateStatistics data = Some obj
           \<and> set [''count'', ''mean'', ''median'', ''stdDev'', ''min'', ''max'',
                   ''p5'', ''p25'', ''p75'', ''p95''] \<subseteq> set (map fst obj))"
  then obtain obj where o: "calculateStatistics [1] = Some obj"
    and k: "set [''count'', ''mean'', ''median'', ''stdDev'', ''min'', ''max'',
                   ''p5'', ''p25'', ''p75'', ''p95''] \<subseteq> set (map fst obj)"
    by blast
  from calculateStatistics_keys [OF o] k show False by simp
qed

section \<open>Properties of the histogram\<close>

text \<open>
  C5: for every non-empty collection of doubles, \<open>binData\<close> (with the bin count chosen by
  the code, or given as a positive array length), provided the bin width it computes is a
  finite non-zero number, returns a non-empty sequence of bins whose counts sum to the
  length of the input and whose first bin starts at the minimum of the input; the bins are
  contiguous (each bin ends where the next one starts), non-overlapping (no bin ends
  before it starts) and in ascending order (bin starts never decrease). When all values
  are equal the single bin ends at the maximum. Otherwise there are \<open>numBins\<close> bins and
  the last bin ends at the double \<open>min + numBins * binWidth\<close>, each operation rounded,
  which is not always the maximum. The proviso on the bin width holds whenever the range
  of the data lies between \<open>2^-1000\<close> and \<open>2^1000\<close> (lemma \<open>binWidth_finite_nonzero\<close>).
\<close>

theorem binData_partition:
  fixes data :: "real list" and numBinsArg :: "int option" and powThird :: double
  defines "mn \<equiv> Min (set data)" and "mx \<equiv> Max (set data)"
  defines "numBins \<equiv> (case numBinsArg of
                         None \<Rightarrow> calculateOptimalBins powThird (sort data)
                       | Some j \<Rightarrow> Finite (of_int j))"
  defines "binWidth \<equiv> d_div (d_sub (Finite mx) (Finite mn)) numBins"
  assumes ne: "data \<noteq> []"
    and rep: "\<forall>v \<in> set data. toDouble v = Finite v"
    and arg: "case numBinsArg of None \<Rightarrow> True | Some j \<Rightarrow> 1 \<le> j \<and> j \<le> 4294967295"
    and width: "mn \<noteq> mx \<longrightarrow> (\<exists>ww. binWidth = Finite ww \<and> ww \<noteq> 0)"
  shows "\<exists>bins. binData powThird data numBinsArg = Inr bins
           \<and> bins \<noteq> []
           \<and> sum_list (map count bins) = length data
           \<and> binStart (hd bins) = Finite mn
           \<and> (\<forall>i. Suc i < length bins \<longrightarrow> binEnd (bins ! i) = binStart (bins ! Suc i))
           \<and> (\<forall>i < length bins. d_le (binStart (bins ! i)) (binEnd (bins ! i)))
           \<and> (\<forall>i j. i \<le> j \<and> j < length bins \<longrightarrow>
                 d_le (binStart (bins ! i)) (binStart (bins ! j)))
           \<and> (mn = mx \<longrightarrow> binEnd (last bins) = Finite mx)
           \<and> (mn \<noteq> mx \<longrightarrow>
                 numBins = Finite (real (length bins))
                 \<and> binEnd (last bins) = d_add (Finite mn) (d_mul numBins binWidth))"
proof (cases "mn = mx")
  case True
  have "binData powThird data numBinsArg =
     Inr [\<lparr>binStart = Finite mn, binEnd = Finite mx, count = length data,
           midpoint = Finite mn, percentage = Finite 100\<rparr>]"
    unfolding mn_def mx_def using ne True [unfolded mn_def mx_def] by (rule binData_single)
  then show ?thesis using True by simp
next
  case False
  obtain ww where w: "binWidth = Finite ww" and nz: "ww \<noteq> 0" using width False by blast
  have "hd data \<in> set data" using ne by simp
  then have "mn \<le> hd data" "hd data \<le> mx" unfolding mn_def mx_def by simp_all
  then have le: "mn \<le> mx" by simp
  have "\<exists>k. numBins = Finite (of_int k) \<and> 1 \<le> k \<and> k \<le> 4294967295"
  proof (cases numBinsArg)
    case None
    then have nb: "numBins = calculateOptimalBins powThird (sort data)" by (simp add: numBins_def)
    have "numBins \<noteq> NotANumber"
    proof
      assume "numBins = NotANumber"
      then have "binWidth = NotANumber" unfolding binWidth_def by (simp only: d_div_NaN)
      with w show False by simp
    qed
    then show ?thesis
      using calculateOptimalBins_cases [of powThird "sort data"] unfolding nb by force
  next
    case (Some j)
    then show ?thesis using arg by (simp add: numBins_def)
  qed
  then obtain k where nb: "numBins = Finite (of_int k)" and lo: "1 \<le> k" and hi: "k \<le> 4294967295"
    by blast
  define n where "n = nat k"
  have npos: "0 < n" using lo by (simp add: n_def)
  have kn: "real_of_int k = real n" using lo by (simp add: n_def)
  have w': "d_div (d_sub (Finite mx) (Finite mn)) (Finite (of_int k)) = Finite ww"
    using w unfolding binWidth_def nb .
  have wpos: "0 < ww" using le lo w' nz by (rule width_positive)
  obtain bins where b: "binData powThird data numBinsArg = Inr bins" "length bins = n"
    "sum_list (map count bins) = length data"
    "map binStart bins =
       map (\<lambda>i. d_add (Finite mn) (d_mul (Finite (real i)) (Finite ww))) [0..<n]"
    "map binEnd bins =
       map (\<lambda>i. d_add (Finite mn) (d_mul (Finite (real (Suc i))) (Finite ww))) [0..<n]"
    using binData_multi [OF ne False [unfolded mn_def mx_def] nb [unfolded numBins_def] lo hi
        w' [unfolded mn_def mx_def] wpos]
    unfolding n_def mn_def mx_def by blast
  have st: "binStart (bins ! i) = d_add (Finite mn) (toDouble (real i * ww))" if "i < n" for i
    using arg_cong [OF b(4), of "\<lambda>xs. xs ! i"] that b(2) by simp
  have en: "binEnd (bins ! i) = d_add (Finite mn) (toDouble (real (Suc i) * ww))" if "i < n" for i
    using arg_cong [OF b(5), of "\<lambda>xs. xs ! i"] that b(2) by (simp del: of_nat_Suc)
  have nonempty: "bins \<noteq> []" using b(2) npos by auto
  have "mn \<in> set data" unfolding mn_def using ne by simp
  then have rmn: "toDouble mn = Finite mn" using rep by blast
  have first: "binStart (hd bins) = Finite mn"
    using st [of 0] npos nonempty by (simp add: hd_conv_nth toDouble_zero rmn)
  have contig: "binEnd (bins ! i) = binStart (bins ! Suc i)" if "Suc i < length bins" for i
    using that b(2) st [of "Suc i"] en [of i] by simp
  have ordered: "d_le (binStart (bins ! i)) (binEnd (bins ! i))" if "i < length bins" for i
  proof -
    have "real i * ww \<le> real (Suc i) * ww" using wpos by simp
    then have "d_le (d_add (Finite mn) (toDouble (real i * ww)))
        (d_add (Finite mn) (toDouble (real (Suc i) * ww)))" by (rule d_add_toDouble_mono)
    then show ?thesis using that b(2) st [of i] en [of i] by simp
  qed
  have asc: "d_le (binStart (bins ! i)) (binStart (bins ! j))" if "i \<le> j" "j < length bins" for i j
  proof -
    have "real i * ww \<le> real j * ww" using wpos that(1) by simp
    then have "d_le (d_add (Finite mn) (toDouble (real i * ww)))
        (d_add (Finite mn) (toDouble (real j * ww)))" by (rule d_add_toDouble_mono)
    then show ?thesis using that b(2) st [of i] st [of j] by simp
  qed
  have nbl: "numBins = Finite (real (length bins))" using nb kn b(2) by simp
  have "binEnd (last bins) = d_add (Finite mn) (toDouble (real (Suc (n - 1)) * ww))"
    using en [of "n - 1"] npos nonempty b(2) by (simp add: last_conv_nth del: of_nat_Suc)
  also have "Suc (n - 1) = n" using npos by simp
  finally have lastb: "binEnd (last bins) = d_add (Finite mn) (d_mul numBins binWidth)"
    unfolding nb w kn by simp
  from b(1) nonempty b(3) first contig ordered asc nbl lastb False show ?thesis by blast
qed

theorem binData_partition_witness:
  "[0, 0, 0, 0, 0, 0, 32, 1024 :: real] \<noteq> []
   \<and> (\<exists>bins. binData (Finite 2) [0, 0, 0, 0, 0, 0, 32, 1024] None = Inr bins
         \<and> bins \<noteq> [] \<and> length bins = 32
         \<and> sum_list (map count bins) = 8
         \<and> binStart (hd bins) = Finite 0
         \<and> binEnd (last bins) = Finite 1024)"
proof -
  let ?D = "[0, 0, 0, 0, 0, 0, 32, 1024 :: real]"
  have srt: "sort ?D = ?D" by simp
  have st: "set ?D = {0, 32, 1024}" by auto
  have mn: "Min (set ?D) = 0" unfolding st by simp
  have mx: "Max (set ?D) = 1024" unfolding st by simp
  have i32: "toDouble 32 = Finite 32" using toDouble_of_int [of 32] by simp
  have i64: "toDouble 64 = Finite 64" using toDouble_of_int [of 64] by simp
  have i1024: "toDouble 1024 = Finite 1024" using toDouble_of_int [of 1024] by simp
  have len: "length ?D = 8" by simp
  have f1: "floorIndex (length ?D) 0.25 = 2" unfolding len by (simp add: floorIndex_def)
  have f2: "floorIndex (length ?D) 0.75 = 6" unfolding len by (simp add: floorIndex_def)
  have q1: "?D ! floorIndex (length ?D) 0.25 = 0" unfolding f1 by simp
  have q3: "?D ! floorIndex (length ?D) 0.75 = 32" unfolding f2 by simp
  have r0: "?D ! 0 = 0" by simp
  have r1: "?D ! (length ?D - 1) = 1024" by simp
  have nb: "calculateOptimalBins (Finite 2) ?D = Finite 32"
    unfolding calculateOptimalBins_def Let_def q1 q3 r0 r1
    by (simp add: d_sub_def i32 i64 i1024)
  have rep: "\<forall>v \<in> set ?D. toDouble v = Finite v"
    unfolding st by (simp add: toDouble_zero i32 i1024)
  have w: "d_div (d_sub (Finite (Max (set ?D))) (Finite (Min (set ?D))))
        (case None of None \<Rightarrow> calculateOptimalBins (Finite 2) (sort ?D)
         | Some j \<Rightarrow> Finite (of_int j)) = Finite 32"
    unfolding mn mx srt by (simp add: nb d_sub_def i32 i1024)
  have width: "Min (set ?D) \<noteq> Max (set ?D) \<longrightarrow>
      (\<exists>ww. d_div (d_sub (Finite (Max (set ?D))) (Finite (Min (set ?D))))
          (case None of None \<Rightarrow> calculateOptimalBins (Finite 2) (sort ?D)
           | Some j \<Rightarrow> Finite (of_int j)) = Finite ww \<and> ww \<noteq> 0)"
    unfolding w by simp
  have neq: "Min (set ?D) \<noteq> Max (set ?D)" unfolding mn mx by simp
  obtain bins where b: "binData (Finite 2) ?D None = Inr bins" "bins \<noteq> []"
    "sum_list (map count bins) = length ?D" "binStart (hd bins) = Finite (Min (set ?D))"
    "(case None of None \<Rightarrow> calculateOptimalBins (Finite 2) (sort ?D)
         | Some j \<Rightarrow> Finite (of_int j)) = Finite (real (length bins))"
    "binEnd (last bins) = d_add (Finite (Min (set ?D)))
       (d_mul (case None of None \<Rightarrow> calculateOptimalBins (Finite 2) (sort ?D)
                | Some j \<Rightarrow> Finite (of_int j))
          (d_div (d_sub (Finite (Max (set ?D))) (Finite (Min (set ?D))))
             (case None of None \<Rightarrow> calculateOptimalBins (Finite 2) (sort ?D)
              | Some j \<Rightarrow> Finite (of_int j))))"
    using binData_partition [of ?D None "Finite 2", OF _ rep _ width] neq by auto
  have l: "length bins = 32" using b(5) unfolding srt by (simp add: nb)
  have e: "binEnd (last bins) = Finite 1024"
    unfolding b(6) w unfolding srt mn by (simp add: nb i1024)
  from b(1,2,3,4) l e mn show ?thesis by simp
qed

text \<open>
  The last bin can end below the maximum and above it. For the eight values 0, 0, 0, 0, 0,
  0, 21, 1024, with 2 for the cube root of 8, the code chooses 49 bins of width
  \<open>1024 / 49\<close>, rounded, and the last bin ends at \<open>49\<close> times that width, rounded, which
  is \<open>1024 - 2^(-43)\<close>. For the two values 0 and 29 in 7 bins the last bin ends at
  \<open>29 + 2^(-48)\<close>. And \<open>binData\<close> does not always return: for seven zeros and the
  smallest positive double the bin width underflows to \<open>0\<close>, the first bin index is
  \<open>0 / 0\<close>, NaN, and the count raises a TypeError.
\<close>

theorem binData_last_end_counterexample:
  "map_sum id (binEnd \<circ> last) (binData (Finite 2) [0, 0, 0, 0, 0, 0, 21, 1024] None) =
     Inr (Finite (1024 - 1 / 2 ^ 43))
   \<and> Max (set [0, 0, 0, 0, 0, 0, 21, 1024 :: real]) = 1024
   \<and> map_sum id (binEnd \<circ> last) (binData (Finite 2) [0, 29] (Some 7)) =
     Inr (Finite (29 + 1 / 2 ^ 48))
   \<and> Max (set [0, 29 :: real]) = 29
   \<and> binData (Finite 2) [0, 0, 0, 0, 0, 0, 0, 2 powi (- 1074)] None = Inl TypeError"
proof -
  have "set [0, 29 :: real] = {0, 29}" by auto
  then have "Max (set [0, 29 :: real]) = 29" by simp
  then show ?thesis
    using binData_default_bins binData_seven_bins [of "Finite 2"] binData_underflow
    by (simp del: power_numeral)
qed

section \<open>Properties of the time-series bands\<close>

text \<open>
  C8: for a non-empty matrix of paths whose rows all have at least \<open>years + 1\<close>
  entries, \<open>computeTimeSeriesBands\<close> returns one band per year index \<open>0..years\<close>, and
  in each of them the five percentiles are defined and ordered:
  \<open>p5 \<le> p25 \<le> p50 \<le> p75 \<le> p95\<close>.
\<close>

theorem bands_ordered:
  assumes "paths \<noteq> []" and "0 \<le> years" and "years + 1 \<le> 4294967295"
    and "\<forall>p \<in> set paths. years + 1 \<le> int (length p)"
  shows "\<exists>bands. computeTimeSeriesBands paths years = Inr bands
           \<and> length bands = nat years + 1
           \<and> (\<forall>y \<le> nat years. \<exists>a b c d e.
                 year (bands ! y) = y
                 \<and> p5 (bands ! y) = Some a \<and> p25 (bands ! y) = Some b
                 \<and> p50 (bands ! y) = Some c \<and> p75 (bands ! y) = Some d
                 \<and> p95 (bands ! y) = Some e
                 \<and> a \<le> b \<and> b \<le> c \<and> c \<le> d \<and> d \<le> e)"
proof -
  have na: "new_Array (years + 1) = Inr (nat years + 1)"
    using assms(2,3) by (simp add: new_Array_def nat_add_distrib)
  have res: "computeTimeSeriesBands paths years = Inr (map (bandAt paths) [0..<nat years + 1])"
    by (simp add: computeTimeSeriesBands_def na)
  have "\<exists>a b c d e. year (map (bandAt paths) [0..<nat years + 1] ! y) = y
           \<and> p5 (map (bandAt paths) [0..<nat years + 1] ! y) = Some a
           \<and> p25 (map (bandAt paths) [0..<nat years + 1] ! y) = Some b
           \<and> p50 (map (bandAt paths) [0..<nat years + 1] ! y) = Some c
           \<and> p75 (map (bandAt paths) [0..<nat years + 1] ! y) = Some d
           \<and> p95 (map (bandAt paths) [0..<nat years + 1] ! y) = Some e
           \<and> a \<le> b \<and> b \<le> c \<and> c \<le> d \<and> d \<le> e" if y: "y \<le> nat years" for y
  proof -
    have rows: "\<And>p. p \<in> set paths \<Longrightarrow> y < length p"
      using assms(2,4) y by fastforce
    have nth: "map (bandAt paths) [0..<nat years + 1] ! y = bandAt paths y"
      using y by (simp add: nth_map_upt del: upt_Suc)
    show ?thesis unfolding nth by (rule bandAt_ordered [OF assms(1) rows])
  qed
  with res show ?thesis by simp
qed

theorem bands_ordered_witness:
  "[[0, 1, 2], [0, 3, 1], [0, 2, 5 :: real]] \<noteq> []
   \<and> (\<exists>bands. computeTimeSeriesBands [[0, 1, 2], [0, 3, 1], [0, 2, 5]] 2 = Inr bands
        \<and> length bands = 3
        \<and> (\<exists>a b c d e. p5 (bands ! 2) = Some a \<and> p25 (bands ! 2) = Some b
              \<and> p50 (bands ! 2) = Some c \<and> p75 (bands ! 2) = Some d
              \<and> p95 (bands ! 2) = Some e
              \<and> a \<le> b \<and> b \<le> c \<and> c \<le> d \<and> d \<le> e))"
proof -
  have "\<exists>bands. computeTimeSeriesBands [[0, 1, 2], [0, 3, 1], [0, 2, 5]] 2 = Inr bands
           \<and> length bands = nat 2 + 1
           \<and> (\<forall>y \<le> nat 2. \<exists>a b c d e.
                 year (bands ! y) = y
                 \<and> p5 (bands ! y) = Some a \<and> p25 (bands ! y) = Some b
                 \<and> p50 (bands ! y) = Some c \<and> p75 (bands ! y) = Some d
                 \<and> p95 (bands ! y) = Some e
                 \<and> a \<le> b \<and> b \<le> c \<and> c \<le> d \<and> d \<le> e)"
    by (rule bands_ordered) simp_all
  then obtain bands where b: "computeTimeSeriesBands [[0, 1, 2], [0, 3, 1], [0, 2, 5]] 2 = Inr bands"
    "length bands = nat 2 + 1"
    "\<forall>y \<le> nat 2. \<exists>a b c d e.
                 year (bands ! y) = y
                 \<and> p5 (bands ! y) = Some a \<and> p25 (bands ! y) = Some b
                 \<and> p50 (bands ! y) = Some c \<and> p75 (bands ! y) = Some d
                 \<and> p95 (bands ! y) = Some e
                 \<and> a \<le> b \<and> b \<le> c \<and> c \<le> d \<and> d \<le> e" by blast
  from b(3) have "\<exists>a b c d e. year (bands ! 2) = 2
                 \<and> p5 (bands ! 2) = Some a \<and> p25 (bands ! 2) = Some b
                 \<and> p50 (bands ! 2) = Some c \<and> p75 (bands ! 2) = Some d
                 \<and> p95 (bands ! 2) = Some e
                 \<and> a \<le> b \<and> b \<le> c \<and> c \<le> d \<and> d \<le> e" by simp
  with b(1,2) show ?thesis by auto
qed

end
